theory Spec2Isabelle
  imports Complex_Main
begin

section \<open>Strings\<close>

text \<open>
  A JavaScript string is modelled as a \<^typ>\<open>string\<close>, one \<^typ>\<open>char\<close> per code unit,
  so \<open>length\<close> is the \<open>.length\<close> of the source. Case folding and the character classes
  of the regular expressions are those of the ASCII range: \<open>toLowerCase\<close> maps
  \<open>A\<close>..\<open>Z\<close> to \<open>a\<close>..\<open>z\<close> and leaves every other character as it is.
\<close>

definition lower_char :: "char \<Rightarrow> char" where
  "lower_char c =
     (case map_of (zip ''ABCDEFGHIJKLMNOPQRSTUVWXYZ'' ''abcdefghijklmnopqrstuvwxyz'') c of
        Some d \<Rightarrow> d
      | None \<Rightarrow> c)"

definition toLowerCase :: "string \<Rightarrow> string" where
  "toLowerCase s = map lower_char s"

text \<open>\<open>s.includes(t)\<close>: \<open>t\<close> occurs in \<open>s\<close> at some index.\<close>

fun startsWith :: "string \<Rightarrow> string \<Rightarrow> bool" where
  "startsWith s [] = True"
| "startsWith [] (y # t) = False"
| "startsWith (x # s) (y # t) = (x = y \<and> startsWith s t)"

fun includes_str :: "string \<Rightarrow> string \<Rightarrow> bool" where
  "includes_str [] t = (t = [])"
| "includes_str (x # s) t = (startsWith (x # s) t \<or> includes_str s t)"

definition endsWith :: "string \<Rightarrow> string \<Rightarrow> bool" where
  "endsWith s t = startsWith (rev s) (rev t)"

text \<open>
  \<open>s.split(c)\<close> for a one-character separator: the pieces between the occurrences of
  \<open>c\<close>; there is always at least one piece (\<open>''''.split(':')\<close> is \<open>['''']\<close>).
\<close>

fun split_on :: "char \<Rightarrow> string \<Rightarrow> string list" where
  "split_on c [] = [[]]"
| "split_on c (x # s) =
     (case split_on c s of
        [] \<Rightarrow> (if x = c then [[], []] else [[x]])
      | p # ps \<Rightarrow> (if x = c then [] # p # ps else (x # p) # ps))"

text \<open>The white space of \<open>\s\<close> and of \<open>parseFloat\<close>: tab, LF, VT, FF, CR, space.\<close>

definition is_space :: "char \<Rightarrow> bool" where
  "is_space c = (c \<in> set [CHR 0x09, CHR 0x0A, CHR 0x0B, CHR 0x0C, CHR 0x0D, CHR '' ''])"

definition is_digit :: "char \<Rightarrow> bool" where
  "is_digit c = (c \<in> set ''0123456789'')"

text \<open>The word characters of \<open>\b\<close>: letters, digits and the underscore.\<close>

definition is_word :: "char \<Rightarrow> bool" where
  "is_word c =
     (c \<in> set ''abcdefghijklmnopqrstuvwxyzABCDEFGHIJKLMNOPQRSTUVWXYZ0123456789_'')"

section \<open>Numbers\<close>

text \<open>
  A JavaScript number as far as the phishing threshold needs it: \<open>NaN\<close>, the two
  infinities, or a finite value. Finite values are kept as exact rationals; the source
  rounds each decimal literal and each quotient to the nearest double, which changes
  nothing for the values that a double represents exactly (such as \<open>0.5\<close>).
\<close>

datatype jsnum = NaN | PosInfinity | NegInfinity | Num rat

definition digit_val :: "char \<Rightarrow> nat" where
  "digit_val c = (case map_of (zip ''0123456789'' [0, 1, 2, 3, 4, 5, 6, 7, 8, 9]) c of
                    Some d \<Rightarrow> d
                  | None \<Rightarrow> 0)"

text \<open>The value of a run of decimal digits, most significant first.\<close>

definition digits_val :: "string \<Rightarrow> nat" where
  "digits_val ds = foldl (\<lambda>n c. 10 * n + digit_val c) 0 ds"

text \<open>An optional sign: whether it is a minus, and the rest of the text.\<close>

fun sign_of :: "string \<Rightarrow> bool \<times> string" where
  "sign_of (c # s) =
     (if c = CHR ''-'' then (True, s) else if c = CHR ''+'' then (False, s) else (False, c # s))"
| "sign_of [] = (False, [])"

text \<open>
  The exponent part \<open>e\<close> or \<open>E\<close>, an optional sign and at least one digit; it is read
  only when the digits are there, and counts as exponent zero otherwise.
\<close>

definition exponent_of :: "string \<Rightarrow> int" where
  "exponent_of s =
     (case s of
        [] \<Rightarrow> 0
      | c # t \<Rightarrow>
          if c = CHR ''e'' \<or> c = CHR ''E'' then
            (let (neg, u) = sign_of t; ds = takeWhile is_digit u
             in if ds = [] then 0
                else if neg then - int (digits_val ds) else int (digits_val ds))
          else 0)"

definition pow10 :: "int \<Rightarrow> rat" where
  "pow10 e = (if 0 \<le> e then 10 ^ nat e else 1 / 10 ^ nat (- e))"

text \<open>
  \<open>parseFloat(s)\<close>: leading white space is skipped, then the longest prefix that is a
  decimal literal is read (sign, \<open>Infinity\<close>, or digits with an optional fraction and
  exponent); \<open>NaN\<close> when there is no such prefix. What follows the literal is ignored.
\<close>

definition parseFloat :: "string \<Rightarrow> jsnum" where
  "parseFloat s =
     (let (neg, u) = sign_of (dropWhile is_space s) in
      if startsWith u ''Infinity'' then (if neg then NegInfinity else PosInfinity)
      else
        let ip = takeWhile is_digit u;
            u1 = dropWhile is_digit u;
            fp = (case u1 of [] \<Rightarrow> [] | c # v \<Rightarrow> if c = CHR ''.'' then takeWhile is_digit v else []);
            u2 = (case u1 of [] \<Rightarrow> [] | c # v \<Rightarrow> if c = CHR ''.'' then dropWhile is_digit v else u1)
        in if ip = [] \<and> fp = [] then NaN
           else
             let m = (of_nat (digits_val ip) + of_nat (digits_val fp) / 10 ^ length fp)
                       * pow10 (exponent_of u2)
             in Num (if neg then - m else m))"

text \<open>\<open>parseFloat(undefined)\<close> reads the text \<open>undefined\<close> and is \<open>NaN\<close>.\<close>

definition parseFloat_opt :: "string option \<Rightarrow> jsnum" where
  "parseFloat_opt x = (case x of None \<Rightarrow> NaN | Some s \<Rightarrow> parseFloat s)"

text \<open>\<open>x || 0.5\<close> on a number: \<open>NaN\<close> and zero are falsy.\<close>

definition or_half :: "jsnum \<Rightarrow> jsnum" where
  "or_half x = (case x of NaN \<Rightarrow> Num (1 / 2) | Num q \<Rightarrow> (if q = 0 then Num (1 / 2) else Num q)
                | PosInfinity \<Rightarrow> PosInfinity | NegInfinity \<Rightarrow> NegInfinity)"

text \<open>\<open>q >= x\<close> for a finite \<open>q\<close>.\<close>

definition ge_num :: "rat \<Rightarrow> jsnum \<Rightarrow> bool" where
  "ge_num q x = (case x of NaN \<Rightarrow> False | PosInfinity \<Rightarrow> False | NegInfinity \<Rightarrow> True
                 | Num t \<Rightarrow> t \<le> q)"

section \<open>Regular expressions\<close>

text \<open>
  The two regular-expression literals of \<open>matches\<close> are matched by a backtracking
  matcher with the priorities of the JavaScript one: a greedy \<open>+\<close> takes the longest
  run first and gives characters back one at a time, a \<open>?\<close> tries its body before
  skipping it, and the first alternative that lets the rest of the pattern succeed wins.
  The patterns only repeat character classes, so \<open>Many1\<close> repeats a class.
\<close>

datatype cls =
    Is char                \<comment> \<open>that character\<close>
  | IsI char               \<comment> \<open>that character, ignoring case (flag \<open>i\<close>)\<close>
  | NoneOf "char list"     \<comment> \<open>\<open>[^...]\<close>\<close>

datatype rx =
    One cls                \<comment> \<open>one character of the class\<close>
  | Many1 cls              \<comment> \<open>\<open>c+\<close>, greedy\<close>
  | Maybe rx               \<comment> \<open>\<open>r?\<close>, greedy\<close>
  | Cap nat rx             \<comment> \<open>capture group number \<open>n\<close>\<close>
  | Seq "rx list"          \<comment> \<open>concatenation\<close>
  | Bol                    \<comment> \<open>\<open>^\<close>\<close>
  | Eol                    \<comment> \<open>\<open>$\<close> (no flag \<open>m\<close>)\<close>
  | WordB                  \<comment> \<open>\<open>\b\<close>\<close>

fun accepts :: "cls \<Rightarrow> char \<Rightarrow> bool" where
  "accepts (Is c) x = (x = c)"
| "accepts (IsI c) x = (lower_char x = lower_char c)"
| "accepts (NoneOf cs) x = (x \<notin> set cs)"

text \<open>
  A position in the input: the characters before it, last one first, and the characters
  from it on. The captures map a group number to the text the group matched.
\<close>

type_synonym pos = "string \<times> string"
type_synonym caps = "nat \<Rightarrow> string option"

text \<open>\<open>backtrack n f\<close> tries \<open>f n\<close>, \<open>f (n - 1)\<close>, ..., \<open>f 1\<close> and keeps the first success.\<close>

fun backtrack :: "nat \<Rightarrow> (nat \<Rightarrow> 'a option) \<Rightarrow> 'a option" where
  "backtrack 0 f = None"
| "backtrack (Suc n) f = (case f (Suc n) of Some a \<Rightarrow> Some a | None \<Rightarrow> backtrack n f)"

definition at_boundary :: "pos \<Rightarrow> bool" where
  "at_boundary p =
     ((case fst p of [] \<Rightarrow> False | a # _ \<Rightarrow> is_word a)
        \<noteq> (case snd p of [] \<Rightarrow> False | b # _ \<Rightarrow> is_word b))"

text \<open>
  \<open>rmatch r p cs k\<close> matches \<open>r\<close> at the position \<open>p\<close> and hands the position after
  the match, with the captures, to the continuation \<open>k\<close> (the rest of the pattern); when
  \<open>k\<close> fails, the next way of matching \<open>r\<close> is tried.
\<close>

fun rmatch :: "rx \<Rightarrow> pos \<Rightarrow> caps \<Rightarrow> (pos \<Rightarrow> caps \<Rightarrow> (pos \<times> caps) option)
                 \<Rightarrow> (pos \<times> caps) option" where
  "rmatch (One c) p cs k =
     (case snd p of
        [] \<Rightarrow> None
      | x # r \<Rightarrow> if accepts c x then k (x # fst p, r) cs else None)"
| "rmatch (Many1 c) p cs k =
     backtrack (length (takeWhile (accepts c) (snd p)))
       (\<lambda>n. k (rev (take n (snd p)) @ fst p, drop n (snd p)) cs)"
| "rmatch (Maybe r) p cs k =
     (case rmatch r p cs k of Some a \<Rightarrow> Some a | None \<Rightarrow> k p cs)"
| "rmatch (Cap n r) p cs k =
     rmatch r p cs
       (\<lambda>p' cs'. k p' (cs'(n \<mapsto> take (length (snd p) - length (snd p')) (snd p))))"
| "rmatch (Seq []) p cs k = k p cs"
| "rmatch (Seq (r # rs)) p cs k = rmatch r p cs (\<lambda>p' cs'. rmatch (Seq rs) p' cs' k)"
| "rmatch Bol p cs k = (if fst p = [] then k p cs else None)"
| "rmatch Eol p cs k = (if snd p = [] then k p cs else None)"
| "rmatch WordB p cs k = (if at_boundary p then k p cs else None)"

text \<open>A match of the whole pattern that starts exactly at \<open>p\<close>.\<close>

definition match_at :: "rx \<Rightarrow> pos \<Rightarrow> (pos \<times> caps) option" where
  "match_at r p = rmatch r p (\<lambda>n. None) (\<lambda>p' cs. Some (p', cs))"

text \<open>
  \<open>regex.exec(s)\<close> from the position \<open>lastIndex\<close>: the first position from there on at
  which the pattern matches; the result is the position after the match (the new
  \<open>lastIndex\<close> of a regular expression with the flag \<open>g\<close>) and the captures, or
  \<open>None\<close> for \<open>null\<close>.
\<close>

fun exec :: "rx \<Rightarrow> string \<Rightarrow> string \<Rightarrow> (pos \<times> caps) option" where
  "exec r l [] = match_at r (l, [])"
| "exec r l (x # s) =
     (case match_at r (l, x # s) of
        Some m \<Rightarrow> Some m
      | None \<Rightarrow> exec r (x # l) s)"

text \<open>\<open>/^([^/]+)\.([^./(]+)(?:\(([^)]+)\))?$/\<close>\<close>

definition domain_regex :: rx where
  "domain_regex =
     Seq [Bol,
          Cap 1 (Many1 (NoneOf ''/'')),
          One (Is CHR ''.''),
          Cap 2 (Many1 (NoneOf ''./('')),
          Maybe (Seq [One (Is CHR ''(''), Cap 3 (Many1 (NoneOf '')'')), One (Is CHR '')'')]),
          Eol]"

text \<open>\<open>/https?:\/\/([^/]+)\.([^./]+)\b/ig\<close>\<close>

definition url_regex :: rx where
  "url_regex =
     Seq [One (IsI CHR ''h''), One (IsI CHR ''t''), One (IsI CHR ''t''), One (IsI CHR ''p''),
          Maybe (One (IsI CHR ''s'')),
          One (Is CHR '':''), One (Is CHR ''/''), One (Is CHR ''/''),
          Cap 1 (Many1 (NoneOf ''/'')),
          One (Is CHR ''.''),
          Cap 2 (Many1 (NoneOf ''./'')),
          WordB]"

text \<open>
  \<open>s.match(r)\<close> for a pattern without the flag \<open>g\<close>: the captures of the first match.
\<close>

definition str_match :: "rx \<Rightarrow> string \<Rightarrow> caps option" where
  "str_match r s = map_option snd (exec r [] s)"

text \<open>
  \<open>s.split(/,\s?/g)\<close>: the pieces between the commas, a white-space character right
  after a comma belonging to the separator.
\<close>

fun split_comma :: "string \<Rightarrow> string list" where
  "split_comma [] = [[]]"
| "split_comma [x] = (if x = CHR '','' then [[], []] else [[x]])"
| "split_comma (x # y # s) =
     (if x = CHR '','' then
        (if is_space y then [] # split_comma s else [] # split_comma (y # s))
      else (case split_comma (y # s) of [] \<Rightarrow> [[x]] | p # ps \<Rightarrow> (x # p) # ps))"

section \<open>String similarity\<close>

text \<open>
  Modelled from the spec: \<open>compareTwoStrings\<close> belongs to the \<open>string-similarity\<close>
  package, which is not among the sources; the spec describes the score as a normalized
  bigram (Dice) similarity in \<open>[0,1]\<close>. The package removes white space, answers \<open>1\<close>
  for equal texts and \<open>0\<close> when one of them has fewer than two characters, and otherwise
  counts each pair of adjacent characters of the second text that is still available in
  the bag of pairs of the first: twice that count over the number of pairs of both.
\<close>

fun bigrams :: "string \<Rightarrow> (char \<times> char) list" where
  "bigrams (a # b # s) = (a, b) # bigrams (b # s)"
| "bigrams [a] = []"
| "bigrams [] = []"

fun intersectionSize :: "(char \<times> char) list \<Rightarrow> (char \<times> char) list \<Rightarrow> nat" where
  "intersectionSize firstBigrams [] = 0"
| "intersectionSize firstBigrams (g # gs) =
     (if g \<in> set firstBigrams then Suc (intersectionSize (remove1 g firstBigrams) gs)
      else intersectionSize firstBigrams gs)"

definition compareTwoStrings :: "string \<Rightarrow> string \<Rightarrow> rat" where
  "compareTwoStrings first second =
     (let f = filter (\<lambda>c. \<not> is_space c) first;
          s = filter (\<lambda>c. \<not> is_space c) second
      in if f = s then 1
         else if length f < 2 \<or> length s < 2 then 0
         else 2 * of_nat (intersectionSize (bigrams f) (bigrams s))
                / of_nat (length f + length s - 2))"

section \<open>Triggers and the matcher\<close>

text \<open>
  Modelled from the spec: the class \<open>Trigger\<close> (\<open>Trigger.js\<close>) is not among the sources;
  the spec gives it a kind, a content and optional flags. The kind is the free-form
  \<open>type\<close> string that \<open>matches\<close> switches on.
\<close>

record Trigger =
  type :: string
  content :: string
  flags :: "string option"

text \<open>\<open>static triggerTypes\<close>: the possible trigger types.\<close>

definition triggerTypes :: "string list" where
  "triggerTypes = [''regex'', ''include'', ''match'', ''phishing'']"

datatype error =
    SyntaxError            \<comment> \<open>\<open>new RegExp\<close> rejects the pattern or the flags\<close>
  | TypeError              \<comment> \<open>a property of \<open>undefined\<close> is read\<close>
  | LengthsDiffer          \<comment> \<open>\<open>'Unable to update, lengths differ!'\<close>\<close>

text \<open>
  The regular expressions that users write are compiled by the JavaScript engine. The
  engine is a parameter: \<open>RegExp pattern flags\<close> is \<open>None\<close> when \<open>new RegExp\<close> throws,
  and otherwise the \<open>test\<close> function of the compiled expression.
\<close>

type_synonym regexp = "string \<Rightarrow> string option \<Rightarrow> (string \<Rightarrow> bool) option"

text \<open>
  One link found in the message, by its two captures: \<open>True\<close> when the loop returns
  \<open>true\<close> at this link, \<open>False\<close> when it goes on to the next link.
\<close>

definition link_verdict :: "string \<Rightarrow> string list \<Rightarrow> jsnum \<Rightarrow> string \<Rightarrow> string \<Rightarrow> bool" where
  "link_verdict expectedDomain expectedExtensions similarity m1 m2 =
     (let foundDomain = toLowerCase m1;
          foundExtension = toLowerCase m2;
          mainPartMatches =
            (foundDomain = expectedDomain \<or> endsWith foundDomain (''.'' @ expectedDomain))
      in if mainPartMatches \<and> foundExtension \<in> set expectedExtensions then False
         else if mainPartMatches \<and> foundExtension \<notin> set expectedExtensions then True
         else if ge_num (compareTwoStrings expectedDomain foundDomain) similarity then True
         else False)"

text \<open>
  The loop \<open>while ((matches = regex.exec(message.content)) !== null)\<close> goes on from the
  end of the last match. It ends because every match of \<open>url_regex\<close> is at least one
  character long, which the next three lemmas show.
\<close>

lemma backtrack_SomeD:
  "backtrack n f = Some a \<Longrightarrow> \<exists>m. 0 < m \<and> m \<le> n \<and> f m = Some a"
proof (induction n)
  case 0
  then show ?case by simp
next
  case (Suc n)
  show ?case
  proof (cases "f (Suc n)")
    case None
    with Suc.prems have "backtrack n f = Some a" by simp
    from Suc.IH [OF this] show ?thesis by (meson le_Suc_eq)
  next
    case (Some b)
    with Suc.prems have "f (Suc n) = Some a" by simp
    then show ?thesis by blast
  qed
qed

lemma rmatch_shorter:
  "rmatch r p cs k = Some res \<Longrightarrow>
     \<exists>p' cs'. length (snd p') \<le> length (snd p) \<and> k p' cs' = Some res"
proof (induction r p cs k arbitrary: res rule: rmatch.induct)
  case (1 c p cs k)
  then obtain x r where "snd p = x # r" and "k (x # fst p, r) cs = Some res"
    by (auto split: list.splits if_splits)
  then show ?case
    by (intro exI [of _ "(x # fst p, r)"] exI [of _ cs]) simp
next
  case (2 c p cs k)
  from backtrack_SomeD [OF "2.prems" [simplified]] show ?case
    by (metis diff_le_self length_drop snd_conv)
next
  case (3 r p cs k)
  show ?case
  proof (cases "rmatch r p cs k")
    case None
    with "3.prems" have "k p cs = Some res" by simp
    then show ?thesis by (intro exI [of _ p] exI [of _ cs]) simp
  next
    case (Some a)
    with "3.prems" have "rmatch r p cs k = Some res" by simp
    from "3.IH" [OF this] show ?thesis .
  qed
next
  case (4 n r p cs k)
  from "4.IH" [OF "4.prems" [simplified]] show ?case by blast
next
  case (5 p cs k)
  then have "k p cs = Some res" by simp
  then show ?case by (intro exI [of _ p] exI [of _ cs]) simp
next
  case (6 r rs p cs k)
  from "6.IH"(2) [OF "6.prems" [simplified]]
  obtain p1 cs1 where a: "length (snd p1) \<le> length (snd p)"
    and b: "rmatch (Seq rs) p1 cs1 k = Some res" by blast
  from "6.IH"(1) [OF b] a show ?case by (meson le_trans)
next
  case (7 p cs k)
  then have "k p cs = Some res" by (simp split: if_splits)
  then show ?case by (intro exI [of _ p] exI [of _ cs]) simp
next
  case (8 p cs k)
  then have "k p cs = Some res" by (simp split: if_splits)
  then show ?case by (intro exI [of _ p] exI [of _ cs]) simp
next
  case (9 p cs k)
  then have "k p cs = Some res" by (simp split: if_splits)
  then show ?case by (intro exI [of _ p] exI [of _ cs]) simp
qed

lemma match_at_url_shorter:
  assumes "match_at url_regex p = Some (p', cs)"
  shows "length (snd p') < length (snd p)"
proof -
  obtain rs where u: "url_regex = Seq (One (IsI CHR ''h'') # rs)"
    by (simp add: url_regex_def)
  from assms obtain x r where s: "snd p = x # r"
    and m: "rmatch (Seq rs) (x # fst p, r) (\<lambda>n. None) (\<lambda>p' cs. Some (p', cs)) = Some (p', cs)"
    unfolding match_at_def u by (auto split: list.splits if_splits)
  from rmatch_shorter [OF m] have "length (snd p') \<le> length r" by auto
  with s show ?thesis by simp
qed

lemma exec_url_shorter:
  "exec url_regex l s = Some (p', cs) \<Longrightarrow> length (snd p') < length s"
proof (induction s arbitrary: l)
  case Nil
  then show ?case using match_at_url_shorter [of "(l, [])" p' cs] by simp
next
  case (Cons x s)
  show ?case
  proof (cases "match_at url_regex (l, x # s)")
    case None
    with Cons.prems have "exec url_regex (x # l) s = Some (p', cs)" by simp
    from Cons.IH [OF this] show ?thesis by simp
  next
    case (Some m)
    with Cons.prems have "match_at url_regex (l, x # s) = Some (p', cs)" by simp
    from match_at_url_shorter [OF this] show ?thesis by simp
  qed
qed

text \<open>
  The scan of the message from the position \<open>p\<close> (the \<open>lastIndex\<close> of the regular
  expression): \<open>True\<close> when some link makes the loop return \<open>true\<close>, \<open>False\<close> when
  \<open>exec\<close> answers \<open>null\<close> first. A link with an empty capture is skipped.
\<close>

function scan :: "string \<Rightarrow> string list \<Rightarrow> jsnum \<Rightarrow> pos \<Rightarrow> bool" where
  "scan expectedDomain expectedExtensions similarity p =
     (case exec url_regex (fst p) (snd p) of
        None \<Rightarrow> False
      | Some (p', matches) \<Rightarrow>
          (case matches 1 of
             None \<Rightarrow> scan expectedDomain expectedExtensions similarity p'
           | Some m1 \<Rightarrow>
               (case matches 2 of
                  None \<Rightarrow> scan expectedDomain expectedExtensions similarity p'
                | Some m2 \<Rightarrow>
                    if m1 = [] \<or> m2 = [] then
                      scan expectedDomain expectedExtensions similarity p'
                    else if link_verdict expectedDomain expectedExtensions similarity m1 m2
                    then True
                    else scan expectedDomain expectedExtensions similarity p')))"
  by pat_completeness auto
termination
  by (relation "measure (\<lambda>(d, es, sim, p). length (snd p))")
     (auto dest: exec_url_shorter)

text \<open>
  \<open>let [a, b] = xs\<close>: the first two elements of the array, each \<open>undefined\<close> when the
  array is too short; further elements are dropped.
\<close>

fun destructure2 :: "'a list \<Rightarrow> 'a option \<times> 'a option" where
  "destructure2 [] = (None, None)"
| "destructure2 [a] = (Some a, None)"
| "destructure2 (a # b # xs) = (Some a, Some b)"

text \<open>
  The first three statements of the case \<open>'phishing'\<close>: the content is split at every
  colon, the first piece is the domain, which is lower-cased, and the second piece is the
  similarity, which is parsed, with \<open>0.5\<close> in the place of a falsy value.
\<close>

definition phishing_split :: "string \<Rightarrow> string option \<times> jsnum" where
  "phishing_split cont =
     (case destructure2 (split_on CHR '':'' cont) of
        (domain, similarity) \<Rightarrow>
          (map_option toLowerCase domain, or_half (parseFloat_opt similarity)))"

text \<open>
  The rest of the case \<open>'phishing'\<close>, from the domain and the similarity. Lower-casing an
  \<open>undefined\<close> domain would be a \<open>TypeError\<close>; \<open>split\<close> always answers at least one
  piece, so that this does not happen.
\<close>

definition phishing_from :: "string option \<times> jsnum \<Rightarrow> string \<Rightarrow> error + bool" where
  "phishing_from parsed message =
     (case parsed of
        (None, similarity) \<Rightarrow> Inl TypeError
      | (Some domain, similarity) \<Rightarrow>
          (case str_match domain_regex domain of
             None \<Rightarrow> Inr False
           | Some parts \<Rightarrow>
               (case parts 1 of
                  None \<Rightarrow> Inr False
                | Some p1 \<Rightarrow>
                    (case parts 2 of
                       None \<Rightarrow> Inr False
                     | Some p2 \<Rightarrow>
                         if p1 = [] \<or> p2 = [] then Inr False
                         else
                           (let expectedDomain = p1;
                                expectedExtensions =
                                  (case parts 3 of
                                     None \<Rightarrow> [p2]
                                   | Some p3 \<Rightarrow>
                                       if p3 = [] then [p2]
                                       else p2 # split_comma (toLowerCase p3))
                            in Inr (scan expectedDomain expectedExtensions similarity
                                      ([], message)))))))"

text \<open>The case \<open>'phishing'\<close> of \<open>matches\<close>.\<close>

definition phishing :: "string \<Rightarrow> string \<Rightarrow> error + bool" where
  "phishing cont message = phishing_from (phishing_split cont) message"

text \<open>\<open>matches(message)\<close>, on the trigger of the feature and the content of the message.\<close>

definition matches :: "regexp \<Rightarrow> Trigger \<Rightarrow> string \<Rightarrow> error + bool" where
  "matches RegExp t message =
     (if type t = ''include'' then
        Inr (includes_str (toLowerCase message) (toLowerCase (content t)))
      else if type t = ''match'' then
        Inr (toLowerCase message = toLowerCase (content t))
      else if type t = ''regex'' then
        (case RegExp (content t) (flags t) of
           None \<Rightarrow> Inl SyntaxError
         | Some test \<Rightarrow> Inr (test message))
      else if type t = ''phishing'' then phishing (content t) message
      else Inr False)"

section \<open>Validation of a new trigger\<close>

text \<open>
  \<open>value.split(/(?<!\\)\//)\<close>: the pieces between the slashes that do not come right
  after a backslash. \<open>prev\<close> is the character before the text, if there is one.
\<close>

fun split_slash :: "char option \<Rightarrow> string \<Rightarrow> string list" where
  "split_slash prev [] = [[]]"
| "split_slash prev (x # s) =
     (if x = CHR ''/'' \<and> prev \<noteq> Some (CHR 0x5C) then [] # split_slash (Some x) s
      else (case split_slash (Some x) s of
              [] \<Rightarrow> [[x]]
            | p # ps \<Rightarrow> (x # p) # ps))"

text \<open>The object that \<open>getTrigger\<close> returns.\<close>

record TriggerResult =
  success :: bool
  message :: "string option"
  new_trigger :: "Trigger option"

text \<open>
  \<open>getTrigger(type, value)\<close>. With fewer than two pieces, or a first piece that is not
  empty, the regex trigger is invalid; otherwise the first piece is dropped
  (\<open>parts.shift()\<close>), the next piece is the content and the one after it, if there is
  one, the flags. The \<open>catch\<close> of the source is the case \<open>None\<close> of the engine.
\<close>

definition getTrigger :: "regexp \<Rightarrow> string \<Rightarrow> string \<Rightarrow> TriggerResult" where
  "getTrigger RegExp ty val =
     (if ty \<notin> set triggerTypes then
        \<lparr>success = False, message = Some ''Usage: <type> <trigger>'', new_trigger = None\<rparr>
      else if val = [] then
        \<lparr>success = False, message = Some ''Empty triggers are not allowed'', new_trigger = None\<rparr>
      else if ty = ''regex'' then
        (case split_slash None val of
           p0 # cont # ps \<Rightarrow>
             if p0 \<noteq> [] then
               \<lparr>success = False, message = Some ''Invalid regex trigger'', new_trigger = None\<rparr>
             else
               (let flgs = (case ps of [] \<Rightarrow> None | f # _ \<Rightarrow> Some f) in
                case RegExp cont flgs of
                  None \<Rightarrow>
                    \<lparr>success = False, message = Some ''Invalid regex trigger'',
                     new_trigger = None\<rparr>
                | Some compiled \<Rightarrow>
                    \<lparr>success = True, message = None,
                     new_trigger = Some \<lparr>type = ty, content = cont, flags = flgs\<rparr>\<rparr>)
         | _ \<Rightarrow> \<lparr>success = False, message = Some ''Invalid regex trigger'', new_trigger = None\<rparr>)
      else
        \<lparr>success = True, message = None,
         new_trigger = Some \<lparr>type = ty, content = val, flags = None\<rparr>\<rparr>)"

section \<open>Collections\<close>

text \<open>
  A \<open>Collection\<close> of discord.js is a JavaScript \<open>Map\<close>: the entries are kept in the
  order in which their keys were first set, and setting a key that is there replaces its
  value in place. It is modelled as the list of its entries.
\<close>

type_synonym ('k, 'v) collection = "('k \<times> 'v) list"

definition coll_has :: "('k, 'v) collection \<Rightarrow> 'k \<Rightarrow> bool" where
  "coll_has c k = (k \<in> fst ` set c)"

definition coll_get :: "('k, 'v) collection \<Rightarrow> 'k \<Rightarrow> 'v option" where
  "coll_get c k = map_of c k"

fun coll_set :: "'k \<Rightarrow> 'v \<Rightarrow> ('k, 'v) collection \<Rightarrow> ('k, 'v) collection" where
  "coll_set k v [] = [(k, v)]"
| "coll_set k v (e # c) = (if fst e = k then (k, v) # c else e # coll_set k v c)"

definition coll_size :: "('k, 'v) collection \<Rightarrow> nat" where
  "coll_size c = length c"

definition coll_values :: "('k, 'v) collection \<Rightarrow> 'v list" where
  "coll_values c = map snd c"


section \<open>Features, the table and the cache\<close>

text \<open>
  The fields of a feature. The \<open>id\<close> is unset before the feature is first saved. What a
  kind of feature adds to the common fields (a response, a punishment, a priority) is the
  field \<open>extra\<close>.
\<close>

record 'x feature =
  idnum :: "int option"
  trigger :: Trigger
  global :: bool
  gid :: string
  channels :: "string list"
  extra :: 'x

text \<open>The values that are bound to the placeholders of a query.\<close>

datatype sqlval = SqlNum int | SqlStr string | SqlNull

text \<open>
  What a kind of feature declares: the static \<open>tableName\<close> and \<open>columns\<close>, and the two
  abstract methods \<open>serialize\<close> and \<open>getOverview\<close>, which every kind overrides.
\<close>

record 'x kind =
  tableName :: string
  columns :: "string list"
  serialize :: "'x feature \<Rightarrow> sqlval list"
  getOverview :: "'x feature \<Rightarrow> string"

text \<open>
  A row of the table of a kind, as a \<open>SELECT *\<close> returns it. The column \<open>trigger\<close> holds
  JSON text; the row carries the trigger that \<open>JSON.parse\<close> makes of it.
\<close>

record 'x row =
  r_id :: int
  r_guildid :: string
  r_trigger :: Trigger
  r_global :: int
  r_channels :: string
  r_extra :: 'x

text \<open>
  Modelled from the spec: the constructor \<open>new this(gid, json, id)\<close> that \<open>fromData\<close> calls
  is the one of the kind (a subclass that is not among the sources); the spec gives the
  record the fields id, trigger, global, guild id and channels, which \<open>fromData\<close> fills from
  the columns of the row: \<open>global\<close> is \<open>data.global === 1\<close> and \<open>channels\<close> is
  \<open>data.channels.split(',')\<close>.
\<close>

definition fromData :: "'x row \<Rightarrow> 'x feature" where
  "fromData data =
     \<lparr>idnum = Some (r_id data),
      trigger = r_trigger data,
      global = (r_global data = 1),
      gid = r_guildid data,
      channels = split_on CHR '','' (r_channels data),
      extra = r_extra data\<rparr>"

text \<open>
  The write statements that \<open>save\<close> and \<open>remove\<close> send, with the values bound to the
  placeholders.
\<close>

datatype statement =
    UPDATE string "string list" "sqlval list"
      \<comment> \<open>\<open>UPDATE table SET c1=?, ... WHERE id = ?\<close> and the values\<close>
  | INSERT string "string list" "sqlval list"
      \<comment> \<open>\<open>INSERT INTO table (c1, ...) VALUES (?, ...)\<close>, one placeholder for each column,
          and the values\<close>
  | DELETE string "sqlval list"
      \<comment> \<open>\<open>DELETE FROM table WHERE id = ?\<close> and the value\<close>

text \<open>
  The database, as far as the feature uses it: the rows that a \<open>SELECT\<close> on a table sees,
  the write statements that were sent to it, in their order, and the \<open>insertId\<close> that it
  answers to the next \<open>INSERT\<close>. How the engine applies a write statement to the rows is
  outside the sources and is not modelled; every query is answered.
\<close>

record 'x database =
  tables :: "string \<Rightarrow> 'x row list"
  issued :: "statement list"
  insertId :: int

text \<open>\<open>Database.instance.queryAll\<close> on a write statement.\<close>

definition queryAll_write :: "statement \<Rightarrow> 'x database \<Rightarrow> 'x database" where
  "queryAll_write q db = db\<lparr>issued := issued db @ [q]\<rparr>"

text \<open>
  \<open>s LIKE pattern\<close>: \<open>%\<close> stands for any text and \<open>_\<close> for any one character. The
  escape character and the collation of the column are left out; they make no
  difference for a pattern made of digits between two \<open>%\<close>.
\<close>

fun sql_like :: "string \<Rightarrow> string \<Rightarrow> bool" where
  "sql_like [] [] = True"
| "sql_like [] (c # s) = False"
| "sql_like (p # ps) [] = (p = CHR ''%'' \<and> sql_like ps [])"
| "sql_like (p # ps) (c # s) =
     (if p = CHR ''%'' then sql_like ps (c # s) \<or> sql_like (p # ps) s
      else (p = CHR ''_'' \<or> p = c) \<and> sql_like ps s)"

text \<open>The three \<open>SELECT\<close> queries: by guild, by guild and global, and by channel.\<close>

definition select_guild :: "'x kind \<Rightarrow> string \<Rightarrow> 'x database \<Rightarrow> 'x row list" where
  "select_guild K guildId db = filter (\<lambda>r. r_guildid r = guildId) (tables db (tableName K))"


definition select_channel :: "'x kind \<Rightarrow> string \<Rightarrow> 'x database \<Rightarrow> 'x row list" where
  "select_channel K channelId db =
     filter (\<lambda>r. sql_like (''%'' @ channelId @ ''%'') (r_channels r)) (tables db (tableName K))"

text \<open>
  The loop \<open>for (const res of result) newItems.set(res.id, this.fromData(res))\<close> on a new
  collection.
\<close>

definition collect :: "'x row list \<Rightarrow> (int, 'x feature) collection" where
  "collect result = foldl (\<lambda>c res. coll_set (r_id res) (fromData res) c) [] result"

text \<open>
  The comparison \<open>(a, b) => a.id - b.id\<close> orders the values by their id. All the values
  that reach a collection have their id set; with an unset id the difference is \<open>NaN\<close>
  and the order that \<open>sort\<close> produces is left open by the language, so that the key
  \<open>0\<close> below stands for nothing in the source.
\<close>

definition id_key :: "'x feature \<Rightarrow> int" where
  "id_key f = (case idnum f of None \<Rightarrow> 0 | Some i \<Rightarrow> i)"

definition coll_sort :: "(int, 'x feature) collection \<Rightarrow> (int, 'x feature) collection" where
  "coll_sort c = sort_key (\<lambda>e. id_key (snd e)) c"

text \<open>
  The static \<open>cache\<close>: for each table name the two collections of the scopes, by channel
  and by guild, each from the key of the scope to the collection of the features held
  for it. \<open>getCache\<close> creates the pair of empty collections on the first use of a table
  name, so that a table name without an entry and one with two empty collections behave
  alike. The eviction of a scope by the timer that \<open>refreshChannel\<close> and \<open>refreshGuild\<close>
  set is a matter of real time and is not modelled.
\<close>

record 'x scopes =
  channelCache :: "(string, (int, 'x feature) collection) collection"
  guildCache :: "(string, (int, 'x feature) collection) collection"

type_synonym 'x cache = "string \<Rightarrow> 'x scopes"

definition getChannelCache ::
  "'x kind \<Rightarrow> 'x cache \<Rightarrow> (string, (int, 'x feature) collection) collection" where
  "getChannelCache K cache = channelCache (cache (tableName K))"

definition getGuildCache ::
  "'x kind \<Rightarrow> 'x cache \<Rightarrow> (string, (int, 'x feature) collection) collection" where
  "getGuildCache K cache = guildCache (cache (tableName K))"

definition setChannelCache ::
  "'x kind \<Rightarrow> (string, (int, 'x feature) collection) collection \<Rightarrow> 'x cache \<Rightarrow> 'x cache" where
  "setChannelCache K c cache = cache(tableName K := (cache (tableName K))\<lparr>channelCache := c\<rparr>)"

definition setGuildCache ::
  "'x kind \<Rightarrow> (string, (int, 'x feature) collection) collection \<Rightarrow> 'x cache \<Rightarrow> 'x cache" where
  "setGuildCache K c cache = cache(tableName K := (cache (tableName K))\<lparr>guildCache := c\<rparr>)"

section \<open>Loading and reading\<close>


definition refreshChannel :: "'x kind \<Rightarrow> string \<Rightarrow> 'x database \<Rightarrow> 'x cache \<Rightarrow> 'x cache" where
  "refreshChannel K channelId db cache =
     (let result = select_channel K channelId db;
          newItems = collect result
      in setChannelCache K (coll_set channelId newItems (getChannelCache K cache)) cache)"


definition getAll :: "'x kind \<Rightarrow> string \<Rightarrow> 'x database \<Rightarrow> (int, 'x feature) collection" where
  "getAll K guildId db = coll_sort (collect (select_guild K guildId db))"

section \<open>The overview of a guild\<close>

text \<open>
  The loop of \<open>getGuildOverview\<close> over the overviews of the features: \<open>res\<close> are the
  chunks that are complete and \<open>txt\<close> is the chunk that is being filled.
\<close>

fun chunk_loop :: "string list \<Rightarrow> string \<Rightarrow> string list \<Rightarrow> string list \<times> string" where
  "chunk_loop res txt [] = (res, txt)"
| "chunk_loop res txt (info # infos) =
     (if length txt + length info < 2000 then chunk_loop res (txt @ info) infos
      else chunk_loop (res @ [txt]) info infos)"

definition getGuildOverview :: "'x kind \<Rightarrow> string \<Rightarrow> 'x database \<Rightarrow> string list option" where
  "getGuildOverview K guildId db =
     (let objects = getAll K guildId db in
      if coll_size objects = 0 then None
      else
        (case chunk_loop [] [] (map (getOverview K) (coll_values objects)) of
           (res, txt) \<Rightarrow> Some (if txt \<noteq> [] then res @ [txt] else res)))"

section \<open>Saving\<close>

text \<open>
  \<open>save()\<close>: the id it returns, the feature after it (with its id), the database and the
  cache. The id is falsy when it is unset or zero. On the update path the statement is
  sent after the comparison of the lengths; on the insert path it is sent at once, and
  the id of the feature becomes the \<open>insertId\<close> of the answer. The cache is written
  through after that.
\<close>

definition write_through :: "'x kind \<Rightarrow> int \<Rightarrow> 'x feature \<Rightarrow> 'x cache \<Rightarrow> 'x cache" where
  "write_through K i this cache =
     (if global this then
        (case coll_get (getGuildCache K cache) (gid this) of
           None \<Rightarrow> cache
         | Some c \<Rightarrow>
             setGuildCache K (coll_set (gid this) (coll_set i this c) (getGuildCache K cache))
               cache)
      else
        setChannelCache K
          (foldl (\<lambda>cc channel.
                    case coll_get cc channel of
                      None \<Rightarrow> cc
                    | Some c \<Rightarrow> coll_set channel (coll_set i this c) cc)
             (getChannelCache K cache) (channels this))
          cache)"

definition save ::
  "'x kind \<Rightarrow> 'x feature \<Rightarrow> 'x database \<Rightarrow> 'x cache
     \<Rightarrow> error + (int \<times> 'x feature \<times> 'x database \<times> 'x cache)" where
  "save K this db cache =
     (let insert =
            (let db' = queryAll_write (INSERT (tableName K) (columns K) (serialize K this)) db;
                 this' = this\<lparr>idnum := Some (insertId db)\<rparr>
             in Inr (insertId db, this', db'\<lparr>insertId := insertId db + 1\<rparr>,
                     write_through K (insertId db) this' cache))
      in case idnum this of
           None \<Rightarrow> insert
         | Some i \<Rightarrow>
             if i = 0 then insert
             else
               (let data = serialize K this in
                if length data \<noteq> length (columns K) then Inl LengthsDiffer
                else
                  Inr (i, this,
                       queryAll_write (UPDATE (tableName K) (columns K) (data @ [SqlNum i])) db,
                       write_through K i this cache)))"

section \<open>Removing\<close>

text \<open>\<open>c.delete(k)\<close>: the collection without the entry of the key.\<close>

definition coll_delete :: "'k \<Rightarrow> ('k, 'v) collection \<Rightarrow> ('k, 'v) collection" where
  "coll_delete k c = filter (\<lambda>e. fst e \<noteq> k) c"

text \<open>
  \<open>remove()\<close>: the \<open>DELETE\<close> is sent, then the feature is deleted from the collection
  cached for its guild, or from the collections cached for its channels. With an unset
  id nothing is under the key \<open>undefined\<close>, and the collections stay as they are.
\<close>

definition delete_from :: "int option \<Rightarrow> (int, 'v) collection \<Rightarrow> (int, 'v) collection" where
  "delete_from i c = (case i of None \<Rightarrow> c | Some j \<Rightarrow> coll_delete j c)"

definition remove :: "'x kind \<Rightarrow> 'x feature \<Rightarrow> 'x database \<Rightarrow> 'x cache \<Rightarrow> 'x database \<times> 'x cache" where
  "remove K this db cache =
     (let db' = queryAll_write
                  (DELETE (tableName K)
                     [case idnum this of None \<Rightarrow> SqlNull | Some i \<Rightarrow> SqlNum i]) db
      in (db',
          if global this then
            (case coll_get (getGuildCache K cache) (gid this) of
               None \<Rightarrow> cache
             | Some c \<Rightarrow>
                 setGuildCache K
                   (coll_set (gid this) (delete_from (idnum this) c) (getGuildCache K cache))
                   cache)
          else
            setChannelCache K
              (foldl (\<lambda>cc channel.
                        case coll_get cc channel of
                          None \<Rightarrow> cc
                        | Some c \<Rightarrow> coll_set channel (delete_from (idnum this) c) cc)
                 (getChannelCache K cache) (channels this))
              cache))"

section \<open>Definitions for the properties\<close>

text \<open>
  The parse as the spec words it, for the comparison with \<open>phishing_split\<close>: the
  content is split at the first colon from the right; what follows that colon is the
  similarity, what precedes it is the domain.
\<close>

definition split_at_last_colon :: "string \<Rightarrow> string \<times> string option" where
  "split_at_last_colon s =
     (if CHR '':'' \<in> set s then
        (rev (tl (dropWhile (\<lambda>c. c \<noteq> CHR '':'') (rev s))),
         Some (rev (takeWhile (\<lambda>c. c \<noteq> CHR '':'') (rev s))))
      else (s, None))"

definition spec_phishing_split :: "string \<Rightarrow> string option \<times> jsnum" where
  "spec_phishing_split cont =
     (case split_at_last_colon cont of
        (domain, similarity) \<Rightarrow>
          (Some (toLowerCase domain), or_half (parseFloat_opt similarity)))"

text \<open>
  Inputs for the examples: a kind of feature whose extra field is a response text, which
  is also its overview, and a table with three rows.
\<close>

definition demo_kind :: "string kind" where
  "demo_kind =
     \<lparr>tableName = ''responses'',
      columns = [''guildid'', ''response''],
      serialize = (\<lambda>f. [SqlStr (gid f), SqlStr (extra f)]),
      getOverview = extra\<rparr>"

definition demo_row :: "int \<Rightarrow> string \<Rightarrow> int \<Rightarrow> string \<Rightarrow> string \<Rightarrow> string row" where
  "demo_row i g gl chs x =
     \<lparr>r_id = i, r_guildid = g,
      r_trigger = \<lparr>type = ''include'', content = ''hello'', flags = None\<rparr>,
      r_global = gl, r_channels = chs, r_extra = x\<rparr>"

definition demo_db :: "string database" where
  "demo_db =
     \<lparr>tables = (\<lambda>t. if t = ''responses'' then
                       [demo_row 2 ''g1'' 0 ''123'' (replicate 1200 (CHR ''b'')),
                        demo_row 1 ''g1'' 1 [] (replicate 1200 (CHR ''a'')),
                        demo_row 3 ''g2'' 0 ''12,77'' ''c'']
                     else []),
      issued = [],
      insertId = 4\<rparr>"

text \<open>
  A cache in which two channels and one guild are loaded, and a feature that is not
  saved yet, global or for the channels \<open>123\<close> (loaded) and \<open>55\<close> (not loaded).
\<close>

definition demo_cache :: "string cache" where
  "demo_cache =
     (\<lambda>t. if t = ''responses'' then
             \<lparr>channelCache = [(''123'', []), (''77'', [(3, fromData (demo_row 3 ''g2'' 0 ''12,77'' ''c''))])],
              guildCache = [(''g1'', [(1, fromData (demo_row 1 ''g1'' 1 [] ''a''))])]\<rparr>
           else \<lparr>channelCache = [], guildCache = []\<rparr>)"

definition demo_feature :: "bool \<Rightarrow> string feature" where
  "demo_feature gl =
     \<lparr>idnum = None, trigger = \<lparr>type = ''match'', content = ''hi'', flags = None\<rparr>,
      global = gl, gid = ''g1'', channels = [''123'', ''55''], extra = ''hello''\<rparr>"

text \<open>
  What holds of every collection of features in the cache: a key occurs once, and the
  feature under a key has that key as its id. The collections that are loaded from the
  table are so, and \<open>save\<close> sets a feature under its id.
\<close>

definition coll_ok :: "(int, 'x feature) collection \<Rightarrow> bool" where
  "coll_ok c = (distinct (map fst c) \<and> (\<forall>e \<in> set c. idnum (snd e) = Some (fst e)))"

definition cache_ok :: "'x kind \<Rightarrow> 'x cache \<Rightarrow> bool" where
  "cache_ok K cache =
     ((\<forall>e \<in> set (getChannelCache K cache). coll_ok (snd e))
      \<and> (\<forall>e \<in> set (getGuildCache K cache). coll_ok (snd e)))"

text \<open>The cache in which nothing is loaded.\<close>

definition empty_cache :: "string cache" where
  "empty_cache = (\<lambda>t. \<lparr>channelCache = [], guildCache = []\<rparr>)"

text \<open>A kind whose \<open>serialize\<close> gives one value for two columns.\<close>

definition short_kind :: "string kind" where
  "short_kind = demo_kind\<lparr>serialize := (\<lambda>f. [SqlStr (gid f)])\<rparr>"

text \<open>
  A table in which the list of channels of the row 7 is the one id
  \<open>123456789012345678\<close>, of which the id \<open>12345678901234567\<close> is a part.
\<close>

definition channel_db :: "string database" where
  "channel_db =
     \<lparr>tables = (\<lambda>t. if t = ''responses'' then
                       [demo_row 7 ''g1'' 0 ''123456789012345678'' ''x'',
                        demo_row 8 ''g1'' 0 ''12345678901234567,55'' ''y'',
                        demo_row 9 ''g1'' 0 ''55'' ''z'']
                     else []),
      issued = [],
      insertId = 10\<rparr>"

section \<open>Properties of the matcher\<close>





text \<open>
  C10: for a trigger whose type is none of the four recognized kinds, \<open>matches\<close> returns
  \<open>false\<close> for every message text, and raises no error.
\<close>

theorem matches_unknown_type:
  "type t \<notin> set triggerTypes \<Longrightarrow> matches RegExp t msg = Inr False"
  by (simp add: matches_def triggerTypes_def)

theorem matches_unknown_type_witness:
  "matches (\<lambda>p f. None) \<lparr>type = ''exact'', content = ''x'', flags = None\<rparr> ''x'' = Inr False"
  using matches_unknown_type
    [of "\<lparr>type = ''exact'', content = ''x'', flags = None\<rparr>" "\<lambda>p f. None" "''x''"]
  by (simp add: triggerTypes_def)

text \<open>
  C1: the phishing trigger \<open>discord.com(gg):0.5\<close> does not match a message with the link
  \<open>https://discord.gg/x\<close> (the alternate extension is allowed), matches a message with
  \<open>https://discord.net/x\<close> (the main part is the expected one, the extension is not
  allowed), matches a message with \<open>https://discrod.com/x\<close> (the similarity of
  \<open>discord\<close> and \<open>discrod\<close> is \<open>0.5\<close>, which reaches the threshold), and does not
  match a message with \<open>https://support.discord.com/x\<close> (a subdomain, with an allowed
  extension). The messages are those of the spec, and the links alone.
\<close>

theorem phishing_examples:
  "matches RegExp \<lparr>type = ''phishing'', content = ''discord.com(gg):0.5'', flags = None\<rparr>
     ''visit https://discord.gg/x'' = Inr False
   \<and> matches RegExp \<lparr>type = ''phishing'', content = ''discord.com(gg):0.5'', flags = None\<rparr>
     ''visit https://discord.net/x'' = Inr True
   \<and> matches RegExp \<lparr>type = ''phishing'', content = ''discord.com(gg):0.5'', flags = None\<rparr>
     ''visit https://discrod.com/x'' = Inr True
   \<and> matches RegExp \<lparr>type = ''phishing'', content = ''discord.com(gg):0.5'', flags = None\<rparr>
     ''visit https://support.discord.com/x'' = Inr False
   \<and> matches RegExp \<lparr>type = ''phishing'', content = ''discord.com(gg):0.5'', flags = None\<rparr>
     ''https://discord.gg/x'' = Inr False
   \<and> matches RegExp \<lparr>type = ''phishing'', content = ''discord.com(gg):0.5'', flags = None\<rparr>
     ''https://discord.net/x'' = Inr True
   \<and> matches RegExp \<lparr>type = ''phishing'', content = ''discord.com(gg):0.5'', flags = None\<rparr>
     ''https://discrod.com/x'' = Inr True
   \<and> matches RegExp \<lparr>type = ''phishing'', content = ''discord.com(gg):0.5'', flags = None\<rparr>
     ''https://support.discord.com/x'' = Inr False
   \<and> compareTwoStrings ''discord'' ''discrod'' = 1 / 2"
proof -
  have a: "phishing ''discord.com(gg):0.5'' ''visit https://discord.gg/x'' = Inr False"
    by code_simp
  have b: "phishing ''discord.com(gg):0.5'' ''visit https://discord.net/x'' = Inr True"
    by code_simp
  have c: "phishing ''discord.com(gg):0.5'' ''visit https://discrod.com/x'' = Inr True"
    by code_simp
  have d: "phishing ''discord.com(gg):0.5'' ''visit https://support.discord.com/x'' = Inr False"
    by code_simp
  have e: "phishing ''discord.com(gg):0.5'' ''https://discord.gg/x'' = Inr False"
    by code_simp
  have f: "phishing ''discord.com(gg):0.5'' ''https://discord.net/x'' = Inr True"
    by code_simp
  have g: "phishing ''discord.com(gg):0.5'' ''https://discrod.com/x'' = Inr True"
    by code_simp
  have h: "phishing ''discord.com(gg):0.5'' ''https://support.discord.com/x'' = Inr False"
    by code_simp
  have i: "compareTwoStrings ''discord'' ''discrod'' = 1 / 2"
    by code_simp
  from a b c d e f g h i show ?thesis by (simp add: matches_def)
qed

section \<open>The parse of a phishing trigger\<close>

lemma split_on_nonempty: "split_on c s \<noteq> []"
  by (induction s) (auto split: list.splits)

lemma split_on_first:
  "split_on c s =
     takeWhile (\<lambda>x. x \<noteq> c) s
       # (case dropWhile (\<lambda>x. x \<noteq> c) s of [] \<Rightarrow> [] | y # r \<Rightarrow> split_on c r)"
proof (induction s)
  case Nil
  then show ?case by simp
next
  case (Cons x s)
  show ?case
  proof (cases "x = c")
    case True
    then show ?thesis using split_on_nonempty [of c s]
      by (cases "split_on c s") simp_all
  next
    case False
    then show ?thesis using Cons by simp
  qed
qed

lemma destructure2_split_on:
  "destructure2 (a # split_on c r) = (Some a, Some (takeWhile (\<lambda>x. x \<noteq> c) r))"
  by (subst split_on_first) simp

lemma phishing_split_first:
  "phishing_split cont =
     (Some (toLowerCase (takeWhile (\<lambda>x. x \<noteq> CHR '':'') cont)),
      or_half (case dropWhile (\<lambda>x. x \<noteq> CHR '':'') cont of
                 [] \<Rightarrow> NaN
               | y # r \<Rightarrow> parseFloat (takeWhile (\<lambda>x. x \<noteq> CHR '':'') r)))"
  unfolding phishing_split_def
  by (subst split_on_first)
     (simp add: destructure2_split_on parseFloat_opt_def split: list.splits
        del: dropWhile_eq_Nil_conv)




text \<open>
  With no colon or with one colon in the content, the split of the source and the split
  from the right are the same.
\<close>

lemma phishing_split_agrees:
  "CHR '':'' \<notin> set cont \<Longrightarrow> phishing_split cont = spec_phishing_split cont"
  "CHR '':'' \<notin> set d \<Longrightarrow> CHR '':'' \<notin> set s \<Longrightarrow>
     phishing_split (d @ CHR '':'' # s) = spec_phishing_split (d @ CHR '':'' # s)"
proof -
  assume n: "CHR '':'' \<notin> set cont"
  then have dw: "dropWhile (\<lambda>x. x \<noteq> CHR '':'') cont = []"
    and tw: "takeWhile (\<lambda>x. x \<noteq> CHR '':'') cont = cont"
    by auto
  show "phishing_split cont = spec_phishing_split cont"
    unfolding phishing_split_first dw tw using n
    by (simp add: spec_phishing_split_def split_at_last_colon_def parseFloat_opt_def)
next
  assume d: "CHR '':'' \<notin> set d" and s: "CHR '':'' \<notin> set s"
  from d have 1: "takeWhile (\<lambda>x. x \<noteq> CHR '':'') (d @ CHR '':'' # s) = d"
    by (auto simp: takeWhile_tail)
  from d have 2: "dropWhile (\<lambda>x. x \<noteq> CHR '':'') (d @ CHR '':'' # s) = CHR '':'' # s"
    by (auto simp: dropWhile_append3)
  from s have 3: "takeWhile (\<lambda>x. x \<noteq> CHR '':'') s = s" by auto
  from s have 4: "takeWhile (\<lambda>x. x \<noteq> CHR '':'') (rev s @ CHR '':'' # rev d) = rev s"
    by (auto simp: takeWhile_tail)
  from s have 5: "dropWhile (\<lambda>x. x \<noteq> CHR '':'') (rev s @ CHR '':'' # rev d) = CHR '':'' # rev d"
    by (auto simp: dropWhile_append3)
  show "phishing_split (d @ CHR '':'' # s) = spec_phishing_split (d @ CHR '':'' # s)"
    unfolding phishing_split_first 1 2
    by (simp add: 3 4 5 spec_phishing_split_def split_at_last_colon_def parseFloat_opt_def)
qed


section \<open>The results of the validation\<close>

lemma split_slash_nonempty: "split_slash prev s \<noteq> []"
  by (induction s arbitrary: prev) (auto split: list.splits)

lemma split_slash_leading:
  "split_slash None (CHR ''/'' # v) = [] # split_slash (Some CHR ''/'') v"
  by simp

lemma split_slash_no_leading:
  assumes "val \<noteq> []" and "\<forall>v. val \<noteq> CHR ''/'' # v"
  shows "\<exists>p ps. split_slash None val = p # ps \<and> p \<noteq> []"
proof -
  from assms obtain x s where v: "val = x # s" and x: "x \<noteq> CHR ''/''"
    by (cases val) auto
  then show ?thesis
    by (cases "split_slash (Some x) s") auto
qed

text \<open>
  The value passes the test \<open>parts.length < 2 || parts.shift()?.length\<close>, that is, the
  first piece is empty and a second piece exists, exactly when it starts with a slash.
\<close>

lemma leading_slash_iff:
  "(\<exists>p1 ps. split_slash None val = [] # p1 # ps) \<longleftrightarrow> (\<exists>v. val = CHR ''/'' # v)"
proof
  assume "\<exists>p1 ps. split_slash None val = [] # p1 # ps"
  then obtain p1 ps where e: "split_slash None val = [] # p1 # ps" by blast
  show "\<exists>v. val = CHR ''/'' # v"
  proof (rule ccontr)
    assume n: "\<nexists>v. val = CHR ''/'' # v"
    from e have "val \<noteq> []" by auto
    with n split_slash_no_leading [of val] e show False by auto
  qed
next
  assume "\<exists>v. val = CHR ''/'' # v"
  then obtain v where "val = CHR ''/'' # v" by blast
  then show "\<exists>p1 ps. split_slash None val = [] # p1 # ps"
    using split_slash_nonempty [of "Some CHR ''/''" v]
    by (cases "split_slash (Some CHR ''/'') v") auto
qed

text \<open>
  C7: \<open>getTrigger\<close> always returns a result object. An unrecognized kind gives the
  failure with the usage message; a recognized kind with an empty value gives the failure
  with the empty-trigger message; for the kind \<open>regex\<close>, a value that does not start
  with a slash gives the failure with the invalid-regex message, and a value that starts
  with one gives that failure when the pattern and the flags that were extracted (the
  pieces after the leading slash) do not compile, and success with the trigger built from
  them when they do; every other kind with a value that is not empty gives success with
  the trigger built from the value.
\<close>

theorem getTrigger_result:
  "(ty \<notin> set triggerTypes \<longrightarrow>
      getTrigger RegExp ty val =
        \<lparr>success = False, message = Some ''Usage: <type> <trigger>'', new_trigger = None\<rparr>)
   \<and> (ty \<in> set triggerTypes \<and> val = [] \<longrightarrow>
      getTrigger RegExp ty val =
        \<lparr>success = False, message = Some ''Empty triggers are not allowed'',
         new_trigger = None\<rparr>)
   \<and> (ty = ''regex'' \<and> val \<noteq> [] \<and> (\<forall>v. val \<noteq> CHR ''/'' # v) \<longrightarrow>
      getTrigger RegExp ty val =
        \<lparr>success = False, message = Some ''Invalid regex trigger'', new_trigger = None\<rparr>)
   \<and> (\<forall>v. ty = ''regex'' \<and> val = CHR ''/'' # v \<longrightarrow>
      (\<exists>pat ps. split_slash (Some CHR ''/'') v = pat # ps
         \<and> getTrigger RegExp ty val =
             (case RegExp pat (case ps of [] \<Rightarrow> None | f # _ \<Rightarrow> Some f) of
                None \<Rightarrow>
                  \<lparr>success = False, message = Some ''Invalid regex trigger'',
                   new_trigger = None\<rparr>
              | Some compiled \<Rightarrow>
                  \<lparr>success = True, message = None,
                   new_trigger =
                     Some \<lparr>type = ty, content = pat,
                           flags = (case ps of [] \<Rightarrow> None | f # _ \<Rightarrow> Some f)\<rparr>\<rparr>)))
   \<and> (ty \<in> set triggerTypes \<and> ty \<noteq> ''regex'' \<and> val \<noteq> [] \<longrightarrow>
      getTrigger RegExp ty val =
        \<lparr>success = True, message = None,
         new_trigger = Some \<lparr>type = ty, content = val, flags = None\<rparr>\<rparr>)"
proof (intro conjI allI impI)
  assume "ty \<notin> set triggerTypes"
  then show "getTrigger RegExp ty val =
        \<lparr>success = False, message = Some ''Usage: <type> <trigger>'', new_trigger = None\<rparr>"
    by (simp add: getTrigger_def)
next
  assume "ty \<in> set triggerTypes \<and> val = []"
  then show "getTrigger RegExp ty val =
        \<lparr>success = False, message = Some ''Empty triggers are not allowed'',
         new_trigger = None\<rparr>"
    by (simp add: getTrigger_def)
next
  assume a: "ty = ''regex'' \<and> val \<noteq> [] \<and> (\<forall>v. val \<noteq> CHR ''/'' # v)"
  then obtain p ps where "split_slash None val = p # ps" and "p \<noteq> []"
    using split_slash_no_leading [of val] by blast
  with a show "getTrigger RegExp ty val =
        \<lparr>success = False, message = Some ''Invalid regex trigger'', new_trigger = None\<rparr>"
    by (simp add: getTrigger_def triggerTypes_def split: list.splits)
next
  fix v
  assume a: "ty = ''regex'' \<and> val = CHR ''/'' # v"
  obtain pat ps where s: "split_slash (Some CHR ''/'') v = pat # ps"
    using split_slash_nonempty [of "Some CHR ''/''" v]
    by (cases "split_slash (Some CHR ''/'') v") auto
  have "getTrigger RegExp ty val =
             (case RegExp pat (case ps of [] \<Rightarrow> None | f # _ \<Rightarrow> Some f) of
                None \<Rightarrow>
                  \<lparr>success = False, message = Some ''Invalid regex trigger'',
                   new_trigger = None\<rparr>
              | Some compiled \<Rightarrow>
                  \<lparr>success = True, message = None,
                   new_trigger =
                     Some \<lparr>type = ty, content = pat,
                           flags = (case ps of [] \<Rightarrow> None | f # _ \<Rightarrow> Some f)\<rparr>\<rparr>)"
    using a s by (cases ps) (simp_all add: getTrigger_def triggerTypes_def split: option.splits)
  with s show "\<exists>pat ps. split_slash (Some CHR ''/'') v = pat # ps
         \<and> getTrigger RegExp ty val =
             (case RegExp pat (case ps of [] \<Rightarrow> None | f # _ \<Rightarrow> Some f) of
                None \<Rightarrow>
                  \<lparr>success = False, message = Some ''Invalid regex trigger'',
                   new_trigger = None\<rparr>
              | Some compiled \<Rightarrow>
                  \<lparr>success = True, message = None,
                   new_trigger =
                     Some \<lparr>type = ty, content = pat,
                           flags = (case ps of [] \<Rightarrow> None | f # _ \<Rightarrow> Some f)\<rparr>\<rparr>)"
    by blast
next
  assume "ty \<in> set triggerTypes \<and> ty \<noteq> ''regex'' \<and> val \<noteq> []"
  then show "getTrigger RegExp ty val =
        \<lparr>success = True, message = None,
         new_trigger = Some \<lparr>type = ty, content = val, flags = None\<rparr>\<rparr>"
    by (simp add: getTrigger_def)
qed

theorem getTrigger_result_witness:
  "getTrigger (\<lambda>p f. if f = Some ''z'' then None else Some (\<lambda>s. True)) ''exact'' ''abc''
     = \<lparr>success = False, message = Some ''Usage: <type> <trigger>'', new_trigger = None\<rparr>
   \<and> getTrigger (\<lambda>p f. if f = Some ''z'' then None else Some (\<lambda>s. True)) ''include'' []
     = \<lparr>success = False, message = Some ''Empty triggers are not allowed'',
        new_trigger = None\<rparr>
   \<and> getTrigger (\<lambda>p f. if f = Some ''z'' then None else Some (\<lambda>s. True)) ''regex'' ''abc''
     = \<lparr>success = False, message = Some ''Invalid regex trigger'', new_trigger = None\<rparr>
   \<and> getTrigger (\<lambda>p f. if f = Some ''z'' then None else Some (\<lambda>s. True)) ''regex'' ''/abc/z''
     = \<lparr>success = False, message = Some ''Invalid regex trigger'', new_trigger = None\<rparr>
   \<and> getTrigger (\<lambda>p f. if f = Some ''z'' then None else Some (\<lambda>s. True)) ''regex'' ''/abc/i''
     = \<lparr>success = True, message = None,
        new_trigger = Some \<lparr>type = ''regex'', content = ''abc'', flags = Some ''i''\<rparr>\<rparr>
   \<and> getTrigger (\<lambda>p f. if f = Some ''z'' then None else Some (\<lambda>s. True)) ''match'' ''abc''
     = \<lparr>success = True, message = None,
        new_trigger = Some \<lparr>type = ''match'', content = ''abc'', flags = None\<rparr>\<rparr>"
proof -
  let ?R = "\<lambda>(p :: string) f. if f = Some ''z'' then None else Some (\<lambda>s :: string. True)"
  have z: "split_slash (Some CHR ''/'') ''abc/z'' = [''abc'', ''z'']"
    and i: "split_slash (Some CHR ''/'') ''abc/i'' = [''abc'', ''i'']"
    by simp_all
  from getTrigger_result [of "''exact''" ?R "''abc''"]
  have 1: "getTrigger ?R ''exact'' ''abc''
     = \<lparr>success = False, message = Some ''Usage: <type> <trigger>'', new_trigger = None\<rparr>"
    by (simp add: triggerTypes_def)
  from getTrigger_result [of "''include''" ?R "[]"]
  have 2: "getTrigger ?R ''include'' []
     = \<lparr>success = False, message = Some ''Empty triggers are not allowed'',
        new_trigger = None\<rparr>"
    by (simp add: triggerTypes_def)
  from getTrigger_result [of "''regex''" ?R "''abc''"]
  have 3: "getTrigger ?R ''regex'' ''abc''
     = \<lparr>success = False, message = Some ''Invalid regex trigger'', new_trigger = None\<rparr>"
    by simp
  from getTrigger_result [of "''regex''" ?R "''/abc/z''"] z
  have 4: "getTrigger ?R ''regex'' ''/abc/z''
     = \<lparr>success = False, message = Some ''Invalid regex trigger'', new_trigger = None\<rparr>"
    by simp
  from getTrigger_result [of "''regex''" ?R "''/abc/i''"] i
  have 5: "getTrigger ?R ''regex'' ''/abc/i''
     = \<lparr>success = True, message = None,
        new_trigger = Some \<lparr>type = ''regex'', content = ''abc'', flags = Some ''i''\<rparr>\<rparr>"
    by simp
  from getTrigger_result [of "''match''" ?R "''abc''"]
  have 6: "getTrigger ?R ''match'' ''abc''
     = \<lparr>success = True, message = None,
        new_trigger = Some \<lparr>type = ''match'', content = ''abc'', flags = None\<rparr>\<rparr>"
    by (simp add: triggerTypes_def)
  from 1 2 3 4 5 6 show ?thesis by blast
qed

section \<open>The chunks of the overview\<close>

lemma coll_set_nonempty: "coll_set k v c \<noteq> []"
  by (cases c) auto

lemma collect_foldl_nonempty:
  "c \<noteq> [] \<or> rows \<noteq> [] \<Longrightarrow>
     foldl (\<lambda>c res. coll_set (r_id res) (fromData res) c) c rows \<noteq> []"
  by (induction rows arbitrary: c) (auto simp: coll_set_nonempty)

lemma collect_empty_iff: "collect rows = [] \<longleftrightarrow> rows = []"
  using collect_foldl_nonempty [of "[]" rows] by (auto simp: collect_def)

lemma getAll_empty_iff: "coll_size (getAll K guildId db) = 0 \<longleftrightarrow> select_guild K guildId db = []"
proof -
  have "length (coll_sort (collect (select_guild K guildId db)))
          = length (collect (select_guild K guildId db))"
    by (simp add: coll_sort_def)
  then show ?thesis
    by (simp add: coll_size_def getAll_def collect_empty_iff)
qed

lemma chunk_loop_inv:
  assumes "chunk_loop res cur infos = (res', cur')"
    and "\<forall>info \<in> set infos. length info < 2000"
    and "\<forall>c \<in> set res. length c < 2000"
    and "length cur < 2000"
  shows "concat res' @ cur' = concat res @ cur @ concat infos
         \<and> (\<forall>c \<in> set res'. length c < 2000) \<and> length cur' < 2000"
  using assms
proof (induction infos arbitrary: res cur)
  case Nil
  then show ?case by simp
next
  case (Cons info infos)
  show ?case
  proof (cases "length cur + length info < 2000")
    case True
    with Cons.prems have "chunk_loop res (cur @ info) infos = (res', cur')" by simp
    from Cons.IH [OF this] Cons.prems True show ?thesis by simp
  next
    case False
    with Cons.prems have "chunk_loop (res @ [cur]) info infos = (res', cur')" by simp
    from Cons.IH [OF this] Cons.prems show ?thesis by simp
  qed
qed

lemma short_chunks_total:
  assumes "\<forall>c \<in> set chunks. length c < (2000::nat)" and "2000 < length (concat chunks)"
  shows "1 < length chunks"
proof (cases chunks)
  case Nil
  with assms show ?thesis by simp
next
  case (Cons c cs)
  with assms show ?thesis by (cases cs) auto
qed

text \<open>
  C8: \<open>getGuildOverview\<close> returns \<open>null\<close> when the guild has no record in the table.
  Otherwise, when the overview of every record is shorter than 2000 characters, it
  returns chunks whose concatenation is the concatenation of the overviews in the order
  of the records, every chunk is shorter than 2000 characters, and there is more than
  one chunk when the overviews have more than 2000 characters in total.
\<close>

theorem getGuildOverview_chunks:
  "(select_guild K guildId db = [] \<longrightarrow> getGuildOverview K guildId db = None)
   \<and> (select_guild K guildId db \<noteq> []
        \<and> (\<forall>f \<in> set (coll_values (getAll K guildId db)). length (getOverview K f) < 2000)
      \<longrightarrow> (\<exists>chunks. getGuildOverview K guildId db = Some chunks
             \<and> concat chunks = concat (map (getOverview K) (coll_values (getAll K guildId db)))
             \<and> (\<forall>c \<in> set chunks. length c < 2000)
             \<and> (2000 < length (concat (map (getOverview K) (coll_values (getAll K guildId db))))
                  \<longrightarrow> 1 < length chunks)))"
proof (intro conjI impI)
  assume "select_guild K guildId db = []"
  then show "getGuildOverview K guildId db = None"
    using getAll_empty_iff [of K guildId db] by (simp add: getGuildOverview_def)
next
  let ?infos = "map (getOverview K) (coll_values (getAll K guildId db))"
  assume a: "select_guild K guildId db \<noteq> []
        \<and> (\<forall>f \<in> set (coll_values (getAll K guildId db)). length (getOverview K f) < 2000)"
  then have ne: "coll_size (getAll K guildId db) \<noteq> 0"
    using getAll_empty_iff [of K guildId db] by simp
  obtain res cur where l: "chunk_loop [] [] ?infos = (res, cur)"
    by (cases "chunk_loop [] [] ?infos") auto
  from a have "\<forall>info \<in> set ?infos. length info < 2000" by auto
  from chunk_loop_inv [OF l this]
  have inv: "concat res @ cur = concat ?infos" "\<forall>c \<in> set res. length c < 2000"
    "length cur < 2000"
    by simp_all
  let ?chunks = "if cur \<noteq> [] then res @ [cur] else res"
  from ne l have g: "getGuildOverview K guildId db = Some ?chunks"
    by (simp add: getGuildOverview_def)
  from inv have c: "concat ?chunks = concat ?infos" by auto
  from inv have s: "\<forall>c \<in> set ?chunks. length c < 2000" by auto
  from s c have "2000 < length (concat ?infos) \<longrightarrow> 1 < length ?chunks"
    using short_chunks_total [of ?chunks] by metis
  with g c s show "\<exists>chunks. getGuildOverview K guildId db = Some chunks
             \<and> concat chunks = concat ?infos
             \<and> (\<forall>c \<in> set chunks. length c < 2000)
             \<and> (2000 < length (concat ?infos) \<longrightarrow> 1 < length chunks)"
    by blast
qed

lemma demo_getAll:
  "getAll demo_kind ''g1'' demo_db =
     [(1, fromData (demo_row 1 ''g1'' 1 [] (replicate 1200 (CHR ''a'')))),
      (2, fromData (demo_row 2 ''g1'' 0 ''123'' (replicate 1200 (CHR ''b''))))]"
  by (simp add: getAll_def select_guild_def demo_kind_def demo_db_def demo_row_def
        collect_def coll_sort_def id_key_def fromData_def)

theorem getGuildOverview_chunks_witness:
  "select_guild demo_kind ''g1'' demo_db \<noteq> []
   \<and> (\<exists>chunks. getGuildOverview demo_kind ''g1'' demo_db = Some chunks
        \<and> concat chunks = replicate 1200 (CHR ''a'') @ replicate 1200 (CHR ''b'')
        \<and> (\<forall>c \<in> set chunks. length c < 2000) \<and> 1 < length chunks)
   \<and> getGuildOverview demo_kind ''g9'' demo_db = None"
proof -
  have a: "select_guild demo_kind ''g1'' demo_db \<noteq> []"
    by (simp add: select_guild_def demo_kind_def demo_db_def demo_row_def)
  have b: "select_guild demo_kind ''g9'' demo_db = []"
    by (simp add: select_guild_def demo_kind_def demo_db_def demo_row_def)
  have c: "map (getOverview demo_kind) (coll_values (getAll demo_kind ''g1'' demo_db))
             = [replicate 1200 (CHR ''a''), replicate 1200 (CHR ''b'')]"
    unfolding demo_getAll
    by (simp add: coll_values_def fromData_def demo_row_def demo_kind_def)
  have d: "\<forall>f \<in> set (coll_values (getAll demo_kind ''g1'' demo_db)).
                  length (getOverview demo_kind f) < 2000"
    unfolding demo_getAll
    by (simp add: coll_values_def fromData_def demo_row_def demo_kind_def)
  from getGuildOverview_chunks [of demo_kind "''g1''" demo_db] a d
  obtain chunks where "getGuildOverview demo_kind ''g1'' demo_db = Some chunks"
    and "concat chunks
           = concat (map (getOverview demo_kind) (coll_values (getAll demo_kind ''g1'' demo_db)))"
    and "\<forall>c \<in> set chunks. length c < 2000"
    and "2000 < length (concat (map (getOverview demo_kind)
                                  (coll_values (getAll demo_kind ''g1'' demo_db))))
           \<longrightarrow> 1 < length chunks"
    by blast
  with c have "\<exists>chunks. getGuildOverview demo_kind ''g1'' demo_db = Some chunks
        \<and> concat chunks = replicate 1200 (CHR ''a'') @ replicate 1200 (CHR ''b'')
        \<and> (\<forall>c \<in> set chunks. length c < 2000) \<and> 1 < length chunks"
    by simp
  moreover from getGuildOverview_chunks [of demo_kind "''g9''" demo_db] b
  have "getGuildOverview demo_kind ''g9'' demo_db = None" by blast
  ultimately show ?thesis using a by blast
qed

section \<open>The write-through of save\<close>

lemma coll_get_None_iff: "coll_get c k = None \<longleftrightarrow> \<not> coll_has c k"
  by (simp add: coll_get_def coll_has_def map_of_eq_None_iff)

lemma map_of_coll_set: "map_of (coll_set k v c) = (map_of c)(k \<mapsto> v)"
  by (induction c) (auto simp: fun_eq_iff)

lemma coll_get_coll_set:
  "coll_get (coll_set k v c) k' = (if k' = k then Some v else coll_get c k')"
  by (simp add: coll_get_def map_of_coll_set)

lemma keys_coll_set: "set (map fst (coll_set k v c)) = insert k (set (map fst c))"
  by (induction c) auto

lemma keys_coll_set_has: "coll_has c k \<Longrightarrow> map fst (coll_set k v c) = map fst c"
  by (induction c) (auto simp: coll_has_def)

lemma coll_set_idem: "coll_set k v (coll_set k v c) = coll_set k v c"
  by (induction c) auto

lemma distinct_coll_set: "distinct (map fst c) \<Longrightarrow> distinct (map fst (coll_set k v c))"
proof (induction c)
  case Nil
  then show ?case by simp
next
  case (Cons e c)
  then show ?case using keys_coll_set [of k v c] by (auto simp del: set_map)
qed 

lemma set_coll_set: "set (coll_set k v c) \<subseteq> insert (k, v) (set c)"
  by (induction c) auto

text \<open>The step of the loop over the channels in \<open>save\<close>.\<close>

lemma write_channels_get:
  "coll_get
     (foldl (\<lambda>cc channel. case coll_get cc channel of None \<Rightarrow> cc
                            | Some c \<Rightarrow> coll_set channel (coll_set i this c) cc) cc chs) k
   = (if k \<in> set chs then map_option (coll_set i this) (coll_get cc k) else coll_get cc k)"
proof (induction chs arbitrary: cc)
  case Nil
  then show ?case by simp
next
  case (Cons ch chs)
  let ?step = "\<lambda>cc channel. case coll_get cc channel of None \<Rightarrow> cc
                            | Some c \<Rightarrow> coll_set channel (coll_set i this c) cc"
  have s: "coll_get (?step cc ch) k
             = (if k = ch then map_option (coll_set i this) (coll_get cc k) else coll_get cc k)"
    by (cases "coll_get cc ch") (auto simp: coll_get_coll_set)
  have "coll_get (foldl ?step cc (ch # chs)) k = coll_get (foldl ?step (?step cc ch) chs) k"
    by simp
  also have "\<dots> = (if k \<in> set chs then map_option (coll_set i this) (coll_get (?step cc ch) k)
                     else coll_get (?step cc ch) k)"
    by (rule Cons.IH)
  also have "\<dots> = (if k \<in> set (ch # chs) then map_option (coll_set i this) (coll_get cc k)
                     else coll_get cc k)"
    unfolding s by (cases "coll_get cc k") (auto simp: coll_set_idem)
  finally show ?case .
qed

lemma write_channels_keys:
  "map fst
     (foldl (\<lambda>cc channel. case coll_get cc channel of None \<Rightarrow> cc
                            | Some c \<Rightarrow> coll_set channel (coll_set i this c) cc) cc chs)
   = map fst cc"
proof (induction chs arbitrary: cc)
  case Nil
  then show ?case by simp
next
  case (Cons ch chs)
  let ?step = "\<lambda>cc channel. case coll_get cc channel of None \<Rightarrow> cc
                            | Some c \<Rightarrow> coll_set channel (coll_set i this c) cc"
  have "map fst (?step cc ch) = map fst cc"
  proof (cases "coll_get cc ch")
    case None
    then show ?thesis by simp
  next
    case (Some c)
    then have "coll_has cc ch" using coll_get_None_iff [of cc ch] by auto
    with Some show ?thesis by (simp add: keys_coll_set_has)
  qed
  with Cons.IH [of "?step cc ch"] show ?case by simp
qed

lemma getters_setChannelCache:
  "getChannelCache K (setChannelCache K c cache) = c"
  "getGuildCache K (setChannelCache K c cache) = getGuildCache K cache"
  "tn \<noteq> tableName K \<Longrightarrow> setChannelCache K c cache tn = cache tn"
  by (simp_all add: getChannelCache_def getGuildCache_def setChannelCache_def)

lemma getters_setGuildCache:
  "getGuildCache K (setGuildCache K c cache) = c"
  "getChannelCache K (setGuildCache K c cache) = getChannelCache K cache"
  "tn \<noteq> tableName K \<Longrightarrow> setGuildCache K c cache tn = cache tn"
  by (simp_all add: getChannelCache_def getGuildCache_def setGuildCache_def)

lemma write_through_global:
  assumes "global this"
  shows "getChannelCache K (write_through K i this cache) = getChannelCache K cache"
    and "map fst (getGuildCache K (write_through K i this cache)) = map fst (getGuildCache K cache)"
    and "coll_get (getGuildCache K (write_through K i this cache)) k =
          (if k = gid this then map_option (coll_set i this) (coll_get (getGuildCache K cache) k)
           else coll_get (getGuildCache K cache) k)"
proof -
  show "getChannelCache K (write_through K i this cache) = getChannelCache K cache"
    using assms by (simp add: write_through_def getters_setGuildCache split: option.splits)
  show "map fst (getGuildCache K (write_through K i this cache)) = map fst (getGuildCache K cache)"
  proof (cases "coll_get (getGuildCache K cache) (gid this)")
    case None
    with assms show ?thesis by (simp add: write_through_def)
  next
    case (Some c)
    then have "coll_has (getGuildCache K cache) (gid this)"
      using coll_get_None_iff [of "getGuildCache K cache" "gid this"] by auto
    with assms Some show ?thesis
      by (simp add: write_through_def getters_setGuildCache keys_coll_set_has)
  qed
  show "coll_get (getGuildCache K (write_through K i this cache)) k =
          (if k = gid this then map_option (coll_set i this) (coll_get (getGuildCache K cache) k)
           else coll_get (getGuildCache K cache) k)"
    using assms
    by (cases "coll_get (getGuildCache K cache) (gid this)")
       (auto simp: write_through_def getters_setGuildCache coll_get_coll_set)
qed

lemma write_through_channels:
  assumes "\<not> global this"
  shows "getGuildCache K (write_through K i this cache) = getGuildCache K cache"
    and "map fst (getChannelCache K (write_through K i this cache))
           = map fst (getChannelCache K cache)"
    and "coll_get (getChannelCache K (write_through K i this cache)) k =
          (if k \<in> set (channels this)
           then map_option (coll_set i this) (coll_get (getChannelCache K cache) k)
           else coll_get (getChannelCache K cache) k)"
  using assms
  by (simp_all add: write_through_def getters_setChannelCache write_channels_get
        write_channels_keys)

lemma write_through_other_table:
  "tn \<noteq> tableName K \<Longrightarrow> write_through K i this cache tn = cache tn"
  by (simp add: write_through_def getters_setChannelCache getters_setGuildCache
        split: option.splits)

lemma save_InrD:
  assumes "save K this db cache = Inr (i, this', db', cache')"
  shows "this' = this\<lparr>idnum := Some i\<rparr> \<and> cache' = write_through K i this' cache"
  using assms
  by (auto simp: save_def Let_def split: option.splits if_splits)

text \<open>
  C6: when \<open>save\<close> returns, the feature it stored is the saved one with its id, and the
  cache is written through to the scopes of the feature only. For a global feature the
  channel cache is as before, no key is added to the guild cache, and the collection
  cached for its guild, if there is one, gets the feature under its id; every other guild
  is as before. For a feature that is not global the guild cache is as before, no key is
  added to the channel cache, and the collection cached for each of its channels gets the
  feature under its id; every other channel is as before. A scope that is not cached
  stays so, and the caches of the other tables are untouched. Setting the feature under
  its id inserts or overwrites that entry and leaves the other entries.
\<close>

theorem save_write_through:
  assumes "save K this db cache = Inr (i, this', db', cache')"
  shows "this' = this\<lparr>idnum := Some i\<rparr>
   \<and> (global this \<longrightarrow>
        getChannelCache K cache' = getChannelCache K cache
      \<and> map fst (getGuildCache K cache') = map fst (getGuildCache K cache)
      \<and> (\<forall>k. coll_get (getGuildCache K cache') k =
            (if k = gid this
             then map_option (coll_set i this') (coll_get (getGuildCache K cache) k)
             else coll_get (getGuildCache K cache) k)))
   \<and> (\<not> global this \<longrightarrow>
        getGuildCache K cache' = getGuildCache K cache
      \<and> map fst (getChannelCache K cache') = map fst (getChannelCache K cache)
      \<and> (\<forall>k. coll_get (getChannelCache K cache') k =
            (if k \<in> set (channels this)
             then map_option (coll_set i this') (coll_get (getChannelCache K cache) k)
             else coll_get (getChannelCache K cache) k)))
   \<and> (\<forall>tn. tn \<noteq> tableName K \<longrightarrow> cache' tn = cache tn)
   \<and> (\<forall>c j. coll_get (coll_set i this' c) j = (if j = i then Some this' else coll_get c j))"
proof -
  from save_InrD [OF assms]
  have t: "this' = this\<lparr>idnum := Some i\<rparr>" and c: "cache' = write_through K i this' cache"
    by simp_all
  from t have g: "global this' = global this" "gid this' = gid this"
    "channels this' = channels this"
    by simp_all
  have 1: "global this \<longrightarrow>
        getChannelCache K cache' = getChannelCache K cache
      \<and> map fst (getGuildCache K cache') = map fst (getGuildCache K cache)
      \<and> (\<forall>k. coll_get (getGuildCache K cache') k =
            (if k = gid this
             then map_option (coll_set i this') (coll_get (getGuildCache K cache) k)
             else coll_get (getGuildCache K cache) k))"
    unfolding c using write_through_global [of this' K i cache] g by simp
  have 2: "\<not> global this \<longrightarrow>
        getGuildCache K cache' = getGuildCache K cache
      \<and> map fst (getChannelCache K cache') = map fst (getChannelCache K cache)
      \<and> (\<forall>k. coll_get (getChannelCache K cache') k =
            (if k \<in> set (channels this)
             then map_option (coll_set i this') (coll_get (getChannelCache K cache) k)
             else coll_get (getChannelCache K cache) k))"
    unfolding c using write_through_channels [of this' K i cache] g by simp
  have 3: "\<forall>tn. tn \<noteq> tableName K \<longrightarrow> cache' tn = cache tn"
    unfolding c by (simp add: write_through_other_table)
  have 4: "\<forall>c j. coll_get (coll_set i this' c) j = (if j = i then Some this' else coll_get c j)"
    by (simp add: coll_get_coll_set)
  from t 1 2 3 4 show ?thesis by blast
qed

lemma demo_save_channels:
  "save demo_kind (demo_feature False) demo_db demo_cache =
     Inr (4, (demo_feature False)\<lparr>idnum := Some 4\<rparr>,
          demo_db\<lparr>issued := [INSERT ''responses'' [''guildid'', ''response'']
                                 [SqlStr ''g1'', SqlStr ''hello'']],
                  insertId := 5\<rparr>,
          write_through demo_kind 4 ((demo_feature False)\<lparr>idnum := Some 4\<rparr>) demo_cache)"
  by (simp add: save_def Let_def demo_feature_def demo_kind_def demo_db_def queryAll_write_def)

lemma demo_save_global:
  "save demo_kind (demo_feature True) demo_db demo_cache =
     Inr (4, (demo_feature True)\<lparr>idnum := Some 4\<rparr>,
          demo_db\<lparr>issued := [INSERT ''responses'' [''guildid'', ''response'']
                                 [SqlStr ''g1'', SqlStr ''hello'']],
                  insertId := 5\<rparr>,
          write_through demo_kind 4 ((demo_feature True)\<lparr>idnum := Some 4\<rparr>) demo_cache)"
  by (simp add: save_def Let_def demo_feature_def demo_kind_def demo_db_def queryAll_write_def)

theorem save_write_through_witness:
  "(\<exists>this' db' cache'.
      save demo_kind (demo_feature False) demo_db demo_cache = Inr (4, this', db', cache')
      \<and> getGuildCache demo_kind cache' = getGuildCache demo_kind demo_cache
      \<and> coll_get (getChannelCache demo_kind cache') ''123'' = Some [(4, this')]
      \<and> coll_get (getChannelCache demo_kind cache') ''55'' = None
      \<and> coll_get (getChannelCache demo_kind cache') ''77''
           = coll_get (getChannelCache demo_kind demo_cache) ''77'')
   \<and> (\<exists>this' db' cache'.
      save demo_kind (demo_feature True) demo_db demo_cache = Inr (4, this', db', cache')
      \<and> getChannelCache demo_kind cache' = getChannelCache demo_kind demo_cache
      \<and> coll_get (getGuildCache demo_kind cache') ''g1''
           = Some [(1, fromData (demo_row 1 ''g1'' 1 [] ''a'')), (4, this')])"
proof -
  have ch: "coll_get (getChannelCache demo_kind demo_cache) ''123'' = Some []"
    "coll_get (getChannelCache demo_kind demo_cache) ''55'' = None"
    "coll_get (getGuildCache demo_kind demo_cache) ''g1''
       = Some [(1, fromData (demo_row 1 ''g1'' 1 [] ''a''))]"
    by (simp_all add: getChannelCache_def getGuildCache_def demo_kind_def demo_cache_def
          coll_get_def)
  have f: "\<not> global (demo_feature False)" "global (demo_feature True)"
    "channels (demo_feature False) = [''123'', ''55'']" "gid (demo_feature True) = ''g1''"
    by (simp_all add: demo_feature_def)
  from save_write_through [OF demo_save_channels] f ch
  have 1: "\<exists>this' db' cache'.
      save demo_kind (demo_feature False) demo_db demo_cache = Inr (4, this', db', cache')
      \<and> getGuildCache demo_kind cache' = getGuildCache demo_kind demo_cache
      \<and> coll_get (getChannelCache demo_kind cache') ''123'' = Some [(4, this')]
      \<and> coll_get (getChannelCache demo_kind cache') ''55'' = None
      \<and> coll_get (getChannelCache demo_kind cache') ''77''
           = coll_get (getChannelCache demo_kind demo_cache) ''77''"
    using demo_save_channels by simp
  from save_write_through [OF demo_save_global] f ch
  have 2: "\<exists>this' db' cache'.
      save demo_kind (demo_feature True) demo_db demo_cache = Inr (4, this', db', cache')
      \<and> getChannelCache demo_kind cache' = getChannelCache demo_kind demo_cache
      \<and> coll_get (getGuildCache demo_kind cache') ''g1''
           = Some [(1, fromData (demo_row 1 ''g1'' 1 [] ''a'')), (4, this')]"
    using demo_save_global by (simp add: fromData_def)
  from 1 2 show ?thesis by blast
qed

section \<open>Reading through the cache\<close>

lemma coll_ok_coll_set:
  assumes "coll_ok c" and "idnum v = Some k"
  shows "coll_ok (coll_set k v c)"
  using assms set_coll_set [of k v c] distinct_coll_set [of c k v]
  by (auto simp: coll_ok_def)









lemma coll_get_SomeD: "coll_get c k = Some v \<Longrightarrow> (k, v) \<in> set c"
  by (simp add: coll_get_def map_of_SomeD)

lemma refreshChannel_caches:
  "getChannelCache K (refreshChannel K channelId db cache)
     = coll_set channelId (collect (select_channel K channelId db)) (getChannelCache K cache)"
  "getGuildCache K (refreshChannel K channelId db cache) = getGuildCache K cache"
  "tn \<noteq> tableName K \<Longrightarrow> refreshChannel K channelId db cache tn = cache tn"
  by (simp_all add: refreshChannel_def getters_setChannelCache)







lemma cache_ok_guild:
  "cache_ok K cache \<Longrightarrow> coll_get (getGuildCache K cache) k = Some c \<Longrightarrow> coll_ok c"
  using coll_get_SomeD [of "getGuildCache K cache" k c] by (force simp: cache_ok_def)

text \<open>
  The condition on the cache holds when nothing is loaded, and \<open>save\<close> and \<open>remove\<close>
  keep it, as the loading of a scope does.
\<close>

lemma cache_ok_empty: "cache_ok K (\<lambda>t. \<lparr>channelCache = [], guildCache = []\<rparr>)"
  by (simp add: cache_ok_def getChannelCache_def getGuildCache_def)

lemma scopes_ok_foldl:
  assumes "\<forall>e \<in> set cc. coll_ok (snd e)"
    and "\<And>c. coll_ok c \<Longrightarrow> coll_ok (f c)"
  shows "\<forall>e \<in> set (foldl (\<lambda>cc channel. case coll_get cc channel of None \<Rightarrow> cc
                                           | Some c \<Rightarrow> coll_set channel (f c) cc) cc chs).
           coll_ok (snd e)"
  using assms(1)
proof (induction chs arbitrary: cc)
  case Nil
  then show ?case by simp
next
  case (Cons ch chs)
  let ?step = "\<lambda>cc channel. case coll_get cc channel of None \<Rightarrow> cc
                              | Some c \<Rightarrow> coll_set channel (f c) cc"
  have "\<forall>e \<in> set (?step cc ch). coll_ok (snd e)"
  proof (cases "coll_get cc ch")
    case None
    with Cons.prems show ?thesis by simp
  next
    case (Some c)
    with Cons.prems have "coll_ok c" using coll_get_SomeD [of cc ch c] by force
    then have "coll_ok (f c)" by (rule assms(2))
    with Cons.prems Some set_coll_set [of ch "f c" cc] show ?thesis by auto
  qed
  from Cons.IH [OF this] show ?case by simp
qed

lemma cache_ok_write_through:
  assumes "cache_ok K cache" and "idnum this = Some i"
  shows "cache_ok K (write_through K i this cache)"
proof (cases "global this")
  case True
  show ?thesis
  proof (cases "coll_get (getGuildCache K cache) (gid this)")
    case None
    with True assms show ?thesis by (simp add: write_through_def)
  next
    case (Some c)
    with assms have "coll_ok (coll_set i this c)"
      by (intro coll_ok_coll_set cache_ok_guild [of K cache "gid this"]) simp_all
    with True Some assms(1)
      set_coll_set [of "gid this" "coll_set i this c" "getGuildCache K cache"]
    show ?thesis
      by (auto simp: write_through_def cache_ok_def getters_setGuildCache)
  qed
next
  case False
  from assms have "\<forall>e \<in> set (getChannelCache K cache). coll_ok (snd e)"
    by (simp add: cache_ok_def)
  from scopes_ok_foldl [OF this, of "coll_set i this" "channels this"] assms False
  show ?thesis
    by (simp add: write_through_def cache_ok_def getters_setChannelCache coll_ok_coll_set)
qed

lemma cache_ok_save:
  assumes "save K this db cache = Inr (i, this', db', cache')" and "cache_ok K cache"
  shows "cache_ok K cache'"
proof -
  from save_InrD [OF assms(1)]
  have "idnum this' = Some i" and "cache' = write_through K i this' cache" by simp_all
  with assms(2) show ?thesis by (simp add: cache_ok_write_through)
qed

lemma coll_ok_delete_from: "coll_ok c \<Longrightarrow> coll_ok (delete_from i c)"
  by (cases i) (auto simp: delete_from_def coll_delete_def coll_ok_def distinct_map_filter)

lemma cache_ok_remove:
  assumes "cache_ok K cache"
  shows "cache_ok K (snd (remove K this db cache))"
proof (cases "global this")
  case True
  show ?thesis
  proof (cases "coll_get (getGuildCache K cache) (gid this)")
    case None
    with True assms show ?thesis by (simp add: remove_def)
  next
    case (Some c)
    with assms have "coll_ok (delete_from (idnum this) c)"
      by (intro coll_ok_delete_from cache_ok_guild [of K cache "gid this"]) simp_all
    with True Some assms
      set_coll_set [of "gid this" "delete_from (idnum this) c" "getGuildCache K cache"]
    show ?thesis
      by (auto simp: remove_def cache_ok_def getters_setGuildCache)
  qed
next
  case False
  from assms have "\<forall>e \<in> set (getChannelCache K cache). coll_ok (snd e)"
    by (simp add: cache_ok_def)
  from scopes_ok_foldl [OF this, of "delete_from (idnum this)" "channels this"] assms False
  show ?thesis
    by (simp add: remove_def cache_ok_def getters_setChannelCache coll_ok_delete_from)
qed



section \<open>The check of the lengths in save\<close>

text \<open>
  The two paths of \<open>save\<close> and the lengths: on the update path lengths that differ are
  an error, and it is raised before anything is sent; on the insert path the statement is
  sent whatever the lengths are.
\<close>

lemma save_update_lengths_differ:
  assumes "idnum this = Some i" and "i \<noteq> 0"
    and "length (serialize K this) \<noteq> length (columns K)"
  shows "save K this db cache = Inl LengthsDiffer"
  using assms by (simp add: save_def Let_def)

lemma save_insert_always_sent:
  assumes "idnum this = None \<or> idnum this = Some 0"
  shows "\<exists>this' cache'.
           save K this db cache =
             Inr (insertId db, this',
                  \<lparr>tables = tables db,
                   issued = issued db @ [INSERT (tableName K) (columns K) (serialize K this)],
                   insertId = insertId db + 1\<rparr>,
                  cache')"
  using assms by (auto simp: save_def Let_def queryAll_write_def)

text \<open>
  C2 at a failing input: a feature without id of a kind with two columns and one
  serialized value. \<open>save\<close> raises nothing and the \<open>INSERT\<close> with two columns and one
  value is sent; with an id, the same feature gives the error of the update path and
  nothing is sent.
\<close>

theorem save_insert_without_check:
  "length (serialize short_kind (demo_feature False)) \<noteq> length (columns short_kind)
   \<and> (\<exists>this' db' cache'.
        save short_kind (demo_feature False) demo_db demo_cache = Inr (4, this', db', cache')
        \<and> issued db' = [INSERT ''responses'' [''guildid'', ''response''] [SqlStr ''g1'']])
   \<and> save short_kind ((demo_feature False)\<lparr>idnum := Some 4\<rparr>) demo_db demo_cache
        = Inl LengthsDiffer"
proof -
  have a: "length (serialize short_kind (demo_feature False)) \<noteq> length (columns short_kind)"
    by (simp add: short_kind_def demo_kind_def)
  have b: "\<exists>this' db' cache'.
        save short_kind (demo_feature False) demo_db demo_cache = Inr (4, this', db', cache')
        \<and> issued db' = [INSERT ''responses'' [''guildid'', ''response''] [SqlStr ''g1'']]"
    by (simp add: save_def Let_def short_kind_def demo_kind_def demo_feature_def demo_db_def
          queryAll_write_def)
  have c: "save short_kind ((demo_feature False)\<lparr>idnum := Some 4\<rparr>) demo_db demo_cache
        = Inl LengthsDiffer"
    by (simp add: save_def Let_def short_kind_def demo_kind_def demo_feature_def)
  from a b c show ?thesis by blast
qed

section \<open>The selection by channel\<close>

lemma sql_like_percent_all: "sql_like ''%'' s"
  by (induction s) auto

lemma sql_like_percent_skip: "sql_like ps s \<Longrightarrow> sql_like (CHR ''%'' # ps) s"
  by (cases s) auto

lemma sql_like_percent_drop: "sql_like (CHR ''%'' # ps) s \<Longrightarrow> sql_like (CHR ''%'' # ps) (pre @ s)"
  by (induction pre) auto

lemma sql_like_self: "sql_like (p @ ''%'') (p @ post)"
proof (induction p)
  case Nil
  then show ?case using sql_like_percent_all [of post] by simp
next
  case (Cons c p)
  then show ?case using sql_like_percent_skip [of "p @ ''%''" "p @ post"] by auto
qed

lemma sql_like_contained:
  "s = pre @ p @ post \<Longrightarrow> sql_like (''%'' @ p @ ''%'') s"
  using sql_like_percent_drop [OF sql_like_percent_skip [OF sql_like_self [of p post]], of pre]
  by simp

lemma split_on_piece_contained:
  "p \<in> set (split_on c s) \<Longrightarrow> \<exists>pre post. s = pre @ p @ post"
proof (induction s arbitrary: p)
  case Nil
  then show ?case by simp
next
  case (Cons x s)
  obtain q qs where q: "split_on c s = q # qs"
    using split_on_nonempty [of c s] by (cases "split_on c s") auto
  from Cons.IH [of q] q obtain pre0 post0 where s0: "s = pre0 @ q @ post0" by auto
  show ?case
  proof (cases "x = c")
    case True
    with Cons.prems q have "p = [] \<or> p \<in> set (split_on c s)" by auto
    then show ?thesis
    proof
      assume "p = []"
      then have "x # s = [] @ p @ (x # s)" by simp
      then show ?thesis by blast
    next
      assume "p \<in> set (split_on c s)"
      from Cons.IH [OF this] obtain pre post where "s = pre @ p @ post" by blast
      then have "x # s = (x # pre) @ p @ post" by simp
      then show ?thesis by blast
    qed
  next
    case False
    with Cons.prems q have "p = x # q \<or> p \<in> set (split_on c s)" by auto
    then show ?thesis
    proof
      assume p: "p = x # q"
      have "takeWhile (\<lambda>y. y \<noteq> c) s = q"
        using q split_on_first [of c s] by simp
      then have "s = q @ dropWhile (\<lambda>y. y \<noteq> c) s"
        by (metis takeWhile_dropWhile_id)
      with p have "x # s = [] @ p @ dropWhile (\<lambda>y. y \<noteq> c) s" by simp
      then show ?thesis by blast
    next
      assume "p \<in> set (split_on c s)"
      from Cons.IH [OF this] obtain pre post where "s = pre @ p @ post" by blast
      then have "x # s = (x # pre) @ p @ post" by simp
      then show ?thesis by blast
    qed
  qed
qed

text \<open>
  One direction of the selection by channel holds: a row whose list of channels has the
  id as a member is selected.
\<close>

lemma member_is_selected:
  assumes "channelId \<in> set (channels (fromData r))"
    and "r \<in> set (tables db (tableName K))"
  shows "r \<in> set (select_channel K channelId db)"
proof -
  from assms(1) obtain pre post where "r_channels r = pre @ channelId @ post"
    using split_on_piece_contained [of channelId "CHR '',''" "r_channels r"]
    by (auto simp: fromData_def)
  from sql_like_contained [OF this] assms(2) show ?thesis
    by (simp add: select_channel_def)
qed

text \<open>
  C3 at a failing input: loading the scope of the channel \<open>12345678901234567\<close> installs
  the row 7 too, whose list of channels does not have that id as a member; \<open>LIKE\<close> with
  \<open>%\<close> on both sides looks for the id anywhere in the stored text.
\<close>

theorem refreshChannel_substring:
  "coll_get (getChannelCache demo_kind
               (refreshChannel demo_kind ''12345678901234567'' channel_db empty_cache))
     ''12345678901234567''
     = Some [(7, fromData (demo_row 7 ''g1'' 0 ''123456789012345678'' ''x'')),
             (8, fromData (demo_row 8 ''g1'' 0 ''12345678901234567,55'' ''y''))]
   \<and> channels (fromData (demo_row 7 ''g1'' 0 ''123456789012345678'' ''x''))
        = [''123456789012345678'']
   \<and> ''12345678901234567''
        \<notin> set (channels (fromData (demo_row 7 ''g1'' 0 ''123456789012345678'' ''x'')))"
proof -
  have a: "coll_get (getChannelCache demo_kind
               (refreshChannel demo_kind ''12345678901234567'' channel_db empty_cache))
     ''12345678901234567''
     = Some [(7, fromData (demo_row 7 ''g1'' 0 ''123456789012345678'' ''x'')),
             (8, fromData (demo_row 8 ''g1'' 0 ''12345678901234567,55'' ''y''))]"
    by (simp add: refreshChannel_caches coll_get_coll_set collect_def select_channel_def
          channel_db_def demo_kind_def demo_row_def)
  have b: "channels (fromData (demo_row 7 ''g1'' 0 ''123456789012345678'' ''x''))
        = [''123456789012345678'']"
    by (simp add: fromData_def demo_row_def)
  from a b show ?thesis by simp
qed

end
